theory Spec2Isabelle
  imports Main
begin

section \<open>JavaScript strings\<close>

text \<open>
  A JavaScript string is a sequence of UTF-16 code units; \<open>length\<close>, \<open>slice\<close> and the
  regular expressions of the service (none has the \<open>u\<close> flag) all count code units.
  A code unit is modelled by its number.  \<open>js\<close> turns an ASCII literal into code units.
\<close>

type_synonym jschar = nat
type_synonym jsstring = "jschar list"

definition js :: "string \<Rightarrow> jsstring" where
  "js s = map of_char s"

text \<open>The class \<open>\s\<close> of a JavaScript regular expression, which is also what
  \<open>String.prototype.trim\<close> strips: WhiteSpace and LineTerminator code units.\<close>

definition isSpace :: "jschar \<Rightarrow> bool" where
  "isSpace c = (c = 9 \<or> c = 10 \<or> c = 11 \<or> c = 12 \<or> c = 13 \<or> c = 32 \<or> c = 160
     \<or> c = 5760 \<or> (8192 \<le> c \<and> c \<le> 8202) \<or> c = 8232 \<or> c = 8233 \<or> c = 8239
     \<or> c = 8287 \<or> c = 12288 \<or> c = 65279)"

text \<open>The class \<open>\d\<close>.\<close>

definition isDigit :: "jschar \<Rightarrow> bool" where
  "isDigit c = (48 \<le> c \<and> c \<le> 57)"

text \<open>\<open>s.trim()\<close>\<close>

definition trim :: "jsstring \<Rightarrow> jsstring" where
  "trim s = rev (dropWhile isSpace (rev (dropWhile isSpace s)))"

text \<open>\<open>s.split(/\s+/)\<close>: the pieces between the maximal runs of white space; a string
  that starts (ends) with white space gets an empty first (last) piece, and the empty
  string gives one empty piece.  \<open>inSep\<close> says that the previous code unit was white
  space, \<open>cur\<close> is the piece read so far.\<close>

fun splitSpaces :: "bool \<Rightarrow> jsstring \<Rightarrow> jsstring \<Rightarrow> jsstring list" where
  "splitSpaces inSep cur [] = [cur]"
| "splitSpaces inSep cur (c # cs) =
     (if isSpace c
      then (if inSep then splitSpaces True [] cs else cur # splitSpaces True [] cs)
      else splitSpaces False (cur @ [c]) cs)"

definition splitWs :: "jsstring \<Rightarrow> jsstring list" where
  "splitWs s = splitSpaces False [] s"

text \<open>\<open>s.match(/(\d{4})/)\<close>: the first run of four digits, if any.\<close>

fun matchYear :: "jsstring \<Rightarrow> jsstring option" where
  "matchYear [] = None"
| "matchYear (c # cs) =
     (if 4 \<le> length (c # cs) \<and> list_all isDigit (take 4 (c # cs))
      then Some (take 4 (c # cs)) else matchYear cs)"

section \<open>Items of the reference library\<close>

text \<open>
  What the service reads of a \<open>Zotero.Item\<close>.  A creator has either a structured
  \<open>lastName\<close> or a single \<open>name\<close> field; a field that is absent is the empty string
  here (the service only tests the fields for truthiness, and \<open>undefined\<close> and the empty
  string are both falsy).  \<open>title\<close> and \<open>date\<close> are \<open>getField("title")\<close> and
  \<open>getField("date")\<close>.
\<close>

record creator =
  lastName :: jsstring
  name :: jsstring

record item =
  itemID :: int
  key :: jsstring
  title :: jsstring
  date :: jsstring
  creators :: "creator list"

record attachment =
  attachmentID :: int
  filePath :: jsstring

record pair =
  parentItem :: item
  pdfAttachment :: attachment

section \<open>The citation index of postProcessCitations\<close>

text \<open>The value type of \<open>authorYearMap\<close>.\<close>

record entry =
  entry_item :: item
  entry_key :: jsstring
  uri :: jsstring

text \<open>\<open>authorYearMap\<close> is a JavaScript \<open>Map\<close>: the association list of its entries in
  insertion order, with \<open>has\<close> and \<open>get\<close> by \<open>map_of\<close>.\<close>

type_synonym citationIndex = "(jsstring \<times> entry) list"

definition has :: "citationIndex \<Rightarrow> jsstring \<Rightarrow> bool" where
  "has idx k = (map_of idx k \<noteq> None)"

text \<open>Lines 952-959: the surname of one creator (empty when there is none).\<close>

definition creatorSurname :: "creator \<Rightarrow> jsstring" where
  "creatorSurname c =
     (if lastName c \<noteq> [] then trim (lastName c)
      else if name c \<noteq> [] then last (splitWs (trim (name c)))
      else [])"

definition itemUri :: "item \<Rightarrow> jsstring" where
  "itemUri it = js ''zotero://select/library/items/'' @ key it"

definition itemYear :: "item \<Rightarrow> jsstring" where
  "itemYear it = (case matchYear (date it) of Some y \<Rightarrow> y | None \<Rightarrow> [])"

definition itemEntry :: "item \<Rightarrow> entry" where
  "itemEntry it = \<lparr>entry_item = it, entry_key = key it, uri = itemUri it\<rparr>"

text \<open>Line 962.  \<open>toLowerCase\<close> is the JavaScript built-in, a parameter of the model.\<close>

definition lookupKey :: "(jsstring \<Rightarrow> jsstring) \<Rightarrow> jsstring \<Rightarrow> jsstring \<Rightarrow> jsstring" where
  "lookupKey toLowerCase surname year = toLowerCase surname @ js ''|'' @ year"

text \<open>Lines 951-966: the loop over the creators of one item.\<close>

fun registerCreators ::
  "(jsstring \<Rightarrow> jsstring) \<Rightarrow> item \<Rightarrow> jsstring \<Rightarrow> citationIndex \<Rightarrow> creator list \<Rightarrow> citationIndex"
where
  "registerCreators toLowerCase it year idx [] = idx"
| "registerCreators toLowerCase it year idx (c # cs) =
     (let surname = creatorSurname c in
      if surname = [] then registerCreators toLowerCase it year idx cs
      else let k = lookupKey toLowerCase surname year in
        if \<not> has idx k
        then registerCreators toLowerCase it year (idx @ [(k, itemEntry it)]) cs
        else registerCreators toLowerCase it year idx cs)"

text \<open>Lines 940-967: the loop over the pairs, from the index built so far.\<close>

fun buildIndexFrom ::
  "(jsstring \<Rightarrow> jsstring) \<Rightarrow> citationIndex \<Rightarrow> pair list \<Rightarrow> citationIndex"
where
  "buildIndexFrom toLowerCase idx [] = idx"
| "buildIndexFrom toLowerCase idx (p # ps) =
     (let it = parentItem p; year = itemYear it in
      if year = [] \<or> creators it = [] then buildIndexFrom toLowerCase idx ps
      else buildIndexFrom toLowerCase
             (registerCreators toLowerCase it year idx (creators it)) ps)"

definition buildIndex :: "(jsstring \<Rightarrow> jsstring) \<Rightarrow> pair list \<Rightarrow> citationIndex" where
  "buildIndex toLowerCase ps = buildIndexFrom toLowerCase [] ps"

text \<open>The registrations the two loops attempt, in the order they attempt them: one
  (key, entry) for every creator with a surname, of every item with a year.\<close>

definition creatorRegistrations ::
  "(jsstring \<Rightarrow> jsstring) \<Rightarrow> item \<Rightarrow> jsstring \<Rightarrow> creator list \<Rightarrow> (jsstring \<times> entry) list"
where
  "creatorRegistrations toLowerCase it year cs =
     map (\<lambda>c. (lookupKey toLowerCase (creatorSurname c) year, itemEntry it))
       (filter (\<lambda>c. creatorSurname c \<noteq> []) cs)"

definition registrations ::
  "(jsstring \<Rightarrow> jsstring) \<Rightarrow> pair list \<Rightarrow> (jsstring \<times> entry) list"
where
  "registrations toLowerCase ps =
     concat (map (\<lambda>p. if itemYear (parentItem p) = [] then []
                       else creatorRegistrations toLowerCase (parentItem p)
                              (itemYear (parentItem p)) (creators (parentItem p))) ps)"

section \<open>Regular expressions of postProcessCitations\<close>

text \<open>
  Each regular expression of the source is a matcher written out by hand.  The
  expressions are simple enough that backtracking never offers a choice: a greedy run
  (\<open>\s+\<close>, \<open>\d+\<close>, a character class with \<open>+\<close>) is always followed by a code unit outside
  its class, so the run is the maximal one (\<open>takeWhile\<close>).
\<close>

definition isLower :: "jschar \<Rightarrow> bool" where
  "isLower c = (97 \<le> c \<and> c \<le> 122)"

definition isUpper :: "jschar \<Rightarrow> bool" where
  "isUpper c = (65 \<le> c \<and> c \<le> 90)"

text \<open>The class \<open>\w\<close>, which decides the word boundary \<open>\b\<close>.\<close>

definition isWord :: "jschar \<Rightarrow> bool" where
  "isWord c = (isLower c \<or> isUpper c \<or> isDigit c \<or> c = 95)"

text \<open>The class \<open>.\<close>: everything but the line terminators.\<close>

definition isDot :: "jschar \<Rightarrow> bool" where
  "isDot c = (c \<noteq> 10 \<and> c \<noteq> 13 \<and> c \<noteq> 8232 \<and> c \<noteq> 8233)"

text \<open>The character class of names in the narrative pattern: the ASCII letters, the
  accented letters U+00E0-U+00F6, U+00F8-U+00FF, U+00C0-U+00D6 and U+00D8-U+00DD, the
  hyphen and the apostrophe.\<close>

definition isNameChar :: "jschar \<Rightarrow> bool" where
  "isNameChar c = (isLower c \<or> isUpper c \<or> (224 \<le> c \<and> c \<le> 246) \<or> (248 \<le> c \<and> c \<le> 255)
     \<or> (192 \<le> c \<and> c \<le> 214) \<or> (216 \<le> c \<and> c \<le> 221) \<or> c = 45 \<or> c = 39)"

text \<open>Equality under the flag \<open>i\<close> with an ASCII lower-case literal: without the flag
  \<open>u\<close> only the two ASCII cases of a letter match it.\<close>

definition ciEq :: "jsstring \<Rightarrow> jsstring \<Rightarrow> bool" where
  "ciEq s lit = (map (\<lambda>c. if isUpper c then c + 32 else c) s = lit)"

text \<open>\<open>s.match(/P$/)\<close> and \<open>s.replace(/P$/, "")\<close>: the leftmost start from which \<open>P\<close>
  matches up to the end of the string; \<open>p u\<close> says that \<open>P\<close> matches all of \<open>u\<close>.\<close>

fun findSuffix :: "(jsstring \<Rightarrow> bool) \<Rightarrow> jsstring \<Rightarrow> jsstring option" where
  "findSuffix p [] = None"
| "findSuffix p (c # cs) = (if p (c # cs) then Some (c # cs) else findSuffix p cs)"

fun stripSuffix :: "(jsstring \<Rightarrow> bool) \<Rightarrow> jsstring \<Rightarrow> jsstring" where
  "stripSuffix p [] = []"
| "stripSuffix p (c # cs) = (if p (c # cs) then [] else c # stripSuffix p cs)"

text \<open>\<open>\d{4}[a-z]?\s*\<close>, all of \<open>u\<close>.\<close>

definition yearSuffix :: "jsstring \<Rightarrow> bool" where
  "yearSuffix u =
     (4 \<le> length u \<and> list_all isDigit (take 4 u) \<and>
      (let r = drop 4 u in
       list_all isSpace r \<or> (r \<noteq> [] \<and> isLower (hd r) \<and> list_all isSpace (tl r))))"

text \<open>\<open>,\s*\d{4}[a-z]?\s*\<close>, all of \<open>u\<close>.\<close>

definition commaYearSuffix :: "jsstring \<Rightarrow> bool" where
  "commaYearSuffix u =
     (case u of [] \<Rightarrow> False | c # r \<Rightarrow> c = 44 \<and> yearSuffix (dropWhile isSpace r))"

text \<open>\<open>\s+et\s+al\.?\<close> with the flag \<open>i\<close>, all of \<open>u\<close>.\<close>

definition etAlSuffix :: "jsstring \<Rightarrow> bool" where
  "etAlSuffix u =
     (let r1 = dropWhile isSpace u; r2 = drop 2 r1; r3 = dropWhile isSpace r2 in
      takeWhile isSpace u \<noteq> [] \<and> ciEq (take 2 r1) (js ''et'') \<and>
      takeWhile isSpace r2 \<noteq> [] \<and> (ciEq r3 (js ''al'') \<or> ciEq r3 (js ''al.'')))"

text \<open>\<open>\s+.+\<close>, all of \<open>r\<close>: some non-empty run of white space, then a non-empty run
  without line terminator.\<close>

definition spacesThenText :: "jsstring \<Rightarrow> bool" where
  "spacesThenText r =
     list_ex (\<lambda>k. list_all isSpace (take k r) \<and> list_all isDot (drop k r)) [1..<length r]"

text \<open>\<open>\s+and\s+.+\<close> with the flag \<open>i\<close>, and \<open>\s+&\s+.+\<close>, all of \<open>u\<close>.\<close>

definition andSuffix :: "jsstring \<Rightarrow> bool" where
  "andSuffix u =
     (let r1 = dropWhile isSpace u in
      takeWhile isSpace u \<noteq> [] \<and> ciEq (take 3 r1) (js ''and'') \<and> spacesThenText (drop 3 r1))"

definition ampSuffix :: "jsstring \<Rightarrow> bool" where
  "ampSuffix u =
     (let r1 = dropWhile isSpace u in
      takeWhile isSpace u \<noteq> [] \<and> take 1 r1 = js ''&'' \<and> spacesThenText (drop 1 r1))"

text \<open>\<open>\s+(and|&)\s+.+\<close> with the flag \<open>i\<close>, all of \<open>u\<close>.\<close>

definition andOrAmpSuffix :: "jsstring \<Rightarrow> bool" where
  "andOrAmpSuffix u = (andSuffix u \<or> ampSuffix u)"

text \<open>
  \<open>s.replace(/P/g, callback)\<close>.  \<open>m seen s\<close> tries \<open>P\<close> at the position that has
  \<open>seen\<close> to its left and \<open>s\<close> to its right and, when \<open>P\<close> matches there, gives the
  text the callback returns for the match and the rest of \<open>s\<close> after the match.  The
  scan goes on after a match, and one code unit further on where there is none.  None of
  the patterns matches the empty string; the guard on the lengths makes this visible
  to the termination proof.
\<close>

function replaceAll ::
  "(jsstring \<Rightarrow> jsstring \<Rightarrow> (jsstring \<times> jsstring) option) \<Rightarrow> jsstring \<Rightarrow> jsstring \<Rightarrow> jsstring"
where
  "replaceAll m seen [] = []"
| "replaceAll m seen (c # cs) =
     (case m seen (c # cs) of
        None \<Rightarrow> c # replaceAll m (seen @ [c]) cs
      | Some (rep, rest) \<Rightarrow>
          if length rest < length (c # cs)
          then rep @ replaceAll m (seen @ take (length (c # cs) - length rest) (c # cs)) rest
          else c # replaceAll m (seen @ [c]) cs)"
  by pat_completeness auto
termination
  by (relation "measure (\<lambda>(m, seen, s). length s)") auto

section \<open>postProcessCitations\<close>

text \<open>Lines 989-1000 and 1021-1030: from the author text to the surname that is looked
  up; \<open>strip\<close> removes the qualifiers "et al.", "and X", "& X".\<close>

definition lastWord :: "jsstring \<Rightarrow> jsstring" where
  "lastWord surname =
     (let parts = splitWs surname in if 1 < length parts then last parts else surname)"

definition parenSurname :: "jsstring \<Rightarrow> jsstring" where
  "parenSurname authorPart =
     lastWord (trim (stripSuffix ampSuffix (stripSuffix andSuffix
       (stripSuffix etAlSuffix authorPart))))"

definition narrativeSurname :: "jsstring \<Rightarrow> jsstring" where
  "narrativeSurname authorText =
     lastWord (trim (stripSuffix andOrAmpSuffix (stripSuffix etAlSuffix authorText)))"

text \<open>Lines 976-1010: the callback of the parenthetical pattern, on the group \<open>inner\<close>
  (the whole match is \<open>inner\<close> in parentheses).\<close>

definition parenCallback ::
  "(jsstring \<Rightarrow> jsstring) \<Rightarrow> citationIndex \<Rightarrow> jsstring \<Rightarrow> jsstring"
where
  "parenCallback toLowerCase idx inner =
     (case findSuffix yearSuffix inner of
        None \<Rightarrow> js ''('' @ inner @ js '')''
      | Some yearMatch \<Rightarrow>
          let year = take 4 yearMatch;
              authorPart = trim (stripSuffix commaYearSuffix inner);
              surname = parenSurname authorPart
          in (case map_of idx (lookupKey toLowerCase surname year) of
                Some e \<Rightarrow> js ''[('' @ inner @ js '')]('' @ uri e @ js '')''
              | None \<Rightarrow> js ''('' @ inner @ js '')''))"

text \<open>The group of \<open>/\(([^()]{2,80}?,\s*\d{4}[a-z]?)\)/\<close>: 2 to 80 code units, then a
  comma, white space, four digits and at most one lower-case letter.  \<open>yearTail\<close> is
  \<open>,\s*\d{4}[a-z]?\<close> on all of \<open>u\<close>.\<close>

definition yearTail :: "jsstring \<Rightarrow> bool" where
  "yearTail u =
     (case u of [] \<Rightarrow> False
      | c # r \<Rightarrow> c = 44 \<and>
          (let d = dropWhile isSpace r in
           list_all isDigit (take 4 d) \<and>
           (length d = 4 \<or> (length d = 5 \<and> isLower (d ! 4)))))"

definition citationGroup :: "jsstring \<Rightarrow> bool" where
  "citationGroup inner = list_ex (\<lambda>n. yearTail (drop n inner)) [2..<81]"

definition notParen :: "jschar \<Rightarrow> bool" where
  "notParen c = (c \<noteq> 40 \<and> c \<noteq> 41)"

text \<open>The parenthetical pattern at one position: an opening parenthesis, the group
  (which has no parenthesis in it), a closing parenthesis.\<close>

definition parenMatch ::
  "(jsstring \<Rightarrow> jsstring) \<Rightarrow> citationIndex \<Rightarrow> jsstring \<Rightarrow> jsstring \<Rightarrow> (jsstring \<times> jsstring) option"
where
  "parenMatch toLowerCase idx seen s =
     (case s of [] \<Rightarrow> None
      | c # r \<Rightarrow>
          if c \<noteq> 40 then None
          else (case dropWhile notParen r of [] \<Rightarrow> None
                | d # rest \<Rightarrow>
                    if d = 41 \<and> citationGroup (takeWhile notParen r)
                    then Some (parenCallback toLowerCase idx (takeWhile notParen r), rest)
                    else None))"

text \<open>The optional middle of the narrative pattern,
  \<open>(?:\s+(?:et\s+al\.?|and|&)\s+[name]+)?\<close>, at the front of \<open>s\<close>: the text it
  matches and what follows, or nothing when it does not match.\<close>

definition qualifier :: "jsstring \<Rightarrow> (jsstring \<times> jsstring) option" where
  "qualifier s =
     (let w = takeWhile isSpace s; r = dropWhile isSpace s in
      if w = [] then None
      else if take 2 r = js ''et'' \<and> takeWhile isSpace (drop 2 r) \<noteq> []
              \<and> take 2 (dropWhile isSpace (drop 2 r)) = js ''al''
      then (let w2 = takeWhile isSpace (drop 2 r);
                r2 = drop 2 (dropWhile isSpace (drop 2 r))
            in if take 1 r2 = js ''.'' then Some (w @ js ''et'' @ w2 @ js ''al.'', drop 1 r2)
               else Some (w @ js ''et'' @ w2 @ js ''al'', r2))
      else if take 3 r = js ''and'' then Some (w @ js ''and'', drop 3 r)
      else if take 1 r = js ''&'' then Some (w @ js ''&'', drop 1 r)
      else None)"

definition secondName :: "jsstring \<Rightarrow> (jsstring \<times> jsstring) option" where
  "secondName s =
     (case qualifier s of None \<Rightarrow> None
      | Some (q, r) \<Rightarrow>
          let w = takeWhile isSpace r; r' = dropWhile isSpace r; n = takeWhile isNameChar r' in
          if w \<noteq> [] \<and> n \<noteq> [] then Some (q @ w @ n, dropWhile isNameChar r') else None)"

text \<open>The end of the narrative pattern, \<open>\s+\((\d{4}[a-z]?)\)(?!\])\<close>, at the front of
  \<open>s\<close>: the year with its suffix and what follows the match.\<close>

definition yearInParens :: "jsstring \<Rightarrow> (jsstring \<times> jsstring) option" where
  "yearInParens s =
     (let w = takeWhile isSpace s; r = dropWhile isSpace s in
      if w \<noteq> [] \<and> take 1 r = js ''('' \<and> 5 \<le> length r \<and> list_all isDigit (take 4 (drop 1 r))
      then (let n = (if take 1 (drop 5 r) \<noteq> [] \<and> isLower (hd (drop 5 r)) then 5 else 4) in
            if take 1 (drop (Suc n) r) = js '')'' \<and> take 1 (drop (Suc (Suc n)) r) \<noteq> js '']''
            then Some (take n (drop 1 r), drop (Suc (Suc n)) r) else None)
      else None)"

text \<open>Lines 1017-1040: the callback of the narrative pattern.\<close>

definition narrativeCallback ::
  "(jsstring \<Rightarrow> jsstring) \<Rightarrow> citationIndex \<Rightarrow> jsstring \<Rightarrow> jsstring \<Rightarrow> jsstring \<Rightarrow> jsstring"
where
  "narrativeCallback toLowerCase idx fullMatch authorText yearWithSuffix =
     (let year = take 4 yearWithSuffix; surname = narrativeSurname authorText in
      case map_of idx (lookupKey toLowerCase surname year) of
        Some e \<Rightarrow> js ''['' @ authorText @ js '' ('' @ yearWithSuffix @ js '')]('' @ uri e @ js '')''
      | None \<Rightarrow> fullMatch)"

text \<open>The narrative pattern at one position: not after \<open>[\<close>, at a word boundary, a
  capital, one or more name characters, the optional qualifier with a second name, and
  the year in parentheses.  The pattern with the second name is tried first.\<close>

definition narrativeMatch ::
  "(jsstring \<Rightarrow> jsstring) \<Rightarrow> citationIndex \<Rightarrow> jsstring \<Rightarrow> jsstring \<Rightarrow> (jsstring \<times> jsstring) option"
where
  "narrativeMatch toLowerCase idx seen s =
     (case s of [] \<Rightarrow> None
      | c # r \<Rightarrow>
          if (seen \<noteq> [] \<and> (last seen = 91 \<or> isWord (last seen))) \<or> \<not> isUpper c
             \<or> takeWhile isNameChar r = []
          then None
          else
            let first = c # takeWhile isNameChar r; r1 = dropWhile isNameChar r;
                long = (case secondName r1 of None \<Rightarrow> None
                        | Some (q, r2) \<Rightarrow>
                            (case yearInParens r2 of None \<Rightarrow> None
                             | Some (y, rest) \<Rightarrow> Some (first @ q, y, rest)));
                found = (case long of Some x \<Rightarrow> Some x
                         | None \<Rightarrow>
                            (case yearInParens r1 of None \<Rightarrow> None
                             | Some (y, rest) \<Rightarrow> Some (first, y, rest)))
            in (case found of None \<Rightarrow> None
                | Some (authorText, y, rest) \<Rightarrow>
                    Some (narrativeCallback toLowerCase idx
                            (take (length s - length rest) s) authorText y, rest)))"

text \<open>\<open>/\[itemId:\d+\]/\<close> at one position, replaced by the empty string.\<close>

definition markerMatch :: "jsstring \<Rightarrow> jsstring \<Rightarrow> (jsstring \<times> jsstring) option" where
  "markerMatch seen s =
     (if take 8 s = js ''[itemId:'' \<and> takeWhile isDigit (drop 8 s) \<noteq> []
         \<and> take 1 (dropWhile isDigit (drop 8 s)) = js '']''
      then Some ([], drop 1 (dropWhile isDigit (drop 8 s))) else None)"

text \<open>Lines 926-1047.\<close>

definition postProcessCitations ::
  "(jsstring \<Rightarrow> jsstring) \<Rightarrow> jsstring \<Rightarrow> pair list \<Rightarrow> jsstring"
where
  "postProcessCitations toLowerCase content itemPdfPairs =
     (let authorYearMap = buildIndex toLowerCase itemPdfPairs in
      if length authorYearMap = 0 then content
      else
        let result = replaceAll (parenMatch toLowerCase authorYearMap) [] content;
            result = replaceAll (narrativeMatch toLowerCase authorYearMap) [] result;
            result = replaceAll markerMatch [] result
        in result)"

text \<open>ASCII lower-casing, the instance of \<open>toLowerCase\<close> used on concrete inputs.\<close>

definition asciiLower :: "jsstring \<Rightarrow> jsstring" where
  "asciiLower s = map (\<lambda>c. if 65 \<le> c \<and> c \<le> 90 then c + 32 else c) s"

section \<open>aggregateTableContents\<close>

text \<open>\<open>md.split("\n")\<close> and \<open>lines.join(sep)\<close>.\<close>

fun splitOn :: "jschar \<Rightarrow> jsstring \<Rightarrow> jsstring \<Rightarrow> jsstring list" where
  "splitOn sep cur [] = [cur]"
| "splitOn sep cur (c # cs) =
     (if c = sep then cur # splitOn sep [] cs else splitOn sep (cur @ [c]) cs)"

definition splitLines :: "jsstring \<Rightarrow> jsstring list" where
  "splitLines md = splitOn 10 [] md"

fun join :: "jsstring \<Rightarrow> jsstring list \<Rightarrow> jsstring" where
  "join sep [] = []"
| "join sep [x] = x"
| "join sep (x # y # zs) = x @ sep @ join sep (y # zs)"

text \<open>\<open>/^\|[\s\-:|]+\|$/.test(trimmed)\<close>: a pipe, one or more of white space, hyphen,
  colon and pipe, and a pipe at the end.\<close>

definition isSeparatorChar :: "jschar \<Rightarrow> bool" where
  "isSeparatorChar c = (isSpace c \<or> c = 45 \<or> c = 58 \<or> c = 124)"

definition isSeparatorLine :: "jsstring \<Rightarrow> bool" where
  "isSeparatorLine trimmed =
     (3 \<le> length trimmed \<and> hd trimmed = 124 \<and> last trimmed = 124
      \<and> list_all isSeparatorChar trimmed)"

definition startsWithPipe :: "jsstring \<Rightarrow> bool" where
  "startsWithPipe trimmed = (take 1 trimmed = js ''|'')"

text \<open>Lines 369-402.  The three arrays and the flag \<open>headerDone\<close> of the loop are its
  state.\<close>

record tableParts =
  header :: jsstring
  dataRows :: jsstring
  nonTableContent :: jsstring

record scanState =
  headerLines :: "jsstring list"
  dataLines :: "jsstring list"
  nonTableLines :: "jsstring list"
  headerDone :: bool

fun scanLines :: "scanState \<Rightarrow> jsstring list \<Rightarrow> scanState" where
  "scanLines st [] = st"
| "scanLines st (line # lines) =
     (let trimmed = trim line in
      if trimmed = [] then scanLines st lines
      else if startsWithPipe trimmed then
        (if \<not> headerDone st
         then scanLines (st\<lparr>headerLines := headerLines st @ [trimmed],
                             headerDone := isSeparatorLine trimmed\<rparr>) lines
         else scanLines (st\<lparr>dataLines := dataLines st @ [trimmed]\<rparr>) lines)
      else scanLines (st\<lparr>nonTableLines := nonTableLines st @ [trimmed]\<rparr>) lines)"

definition splitTableHeaderAndRows :: "jsstring \<Rightarrow> tableParts" where
  "splitTableHeaderAndRows md =
     (let st = scanLines \<lparr>headerLines = [], dataLines = [], nonTableLines = [],
                          headerDone = False\<rparr> (splitLines md)
      in \<lparr>header = join [10] (headerLines st),
          dataRows = join [10] (dataLines st),
          nonTableContent = join [10] (nonTableLines st)\<rparr>)"

text \<open>The two-character placeholder for an unknown author or year (U+672A U+77E5).\<close>

definition unknownText :: jsstring where
  "unknownText = [26410, 30693]"

text \<open>Lines 405-415 and 418-422.\<close>

definition extractAuthorSurname :: "item \<Rightarrow> jsstring" where
  "extractAuthorSurname it =
     (case creators it of
        [] \<Rightarrow> unknownText
      | c # _ \<Rightarrow>
          if lastName c \<noteq> [] then lastName c
          else if name c \<noteq> [] then last (splitWs (trim (name c)))
          else unknownText)"

definition extractYear :: "item \<Rightarrow> jsstring" where
  "extractYear it = (case matchYear (date it) of Some y \<Rightarrow> y | None \<Rightarrow> unknownText)"

text \<open>The decimal digits of the counter \<open>index\<close> in a template string.\<close>

function decimal :: "nat \<Rightarrow> jsstring" where
  "decimal n = (if n < 10 then [48 + n] else decimal (n div 10) @ [48 + n mod 10])"
  by pat_completeness auto
termination
  by (relation "measure (\<lambda>n. n)") auto

declare decimal.simps [simp del]

text \<open>Lines 361-366: \<open>itemMap\<close>, where a later pair replaces an earlier one with the
  same item id.\<close>

definition itemMapOf :: "pair list \<Rightarrow> (int \<rightharpoonup> item)" where
  "itemMapOf itemPdfPairs =
     foldl (\<lambda>m p. m(itemID (parentItem p) \<mapsto> parentItem p)) Map.empty itemPdfPairs"

text \<open>Lines 432-443: the label of a block; the word between the asterisks is U+6587
  U+732E.\<close>

definition blockLabel :: "(int \<rightharpoonup> item) \<Rightarrow> nat \<Rightarrow> int \<Rightarrow> jsstring" where
  "blockLabel itemMap index itemId =
     (case itemMap itemId of
        Some it \<Rightarrow>
          js ''> **'' @ [25991, 29486] @ js '' '' @ decimal index @ js ''**: ''
            @ take 80 (title it) @ js '' ('' @ extractAuthorSurname it @ js '', ''
            @ extractYear it @ js '')''
      | None \<Rightarrow> js ''> **'' @ [25991, 29486] @ js '' '' @ decimal index @ js ''**'')"

text \<open>Lines 445-465: the block of one table, from its label.\<close>

definition blockOf :: "jsstring \<Rightarrow> jsstring \<Rightarrow> jsstring" where
  "blockOf label tableContent =
     (let t = splitTableHeaderAndRows tableContent;
          entry = label;
          entry = (if nonTableContent t \<noteq> [] then entry @ [10] @ nonTableContent t else entry);
          entry = (if dataRows t \<noteq> [] then entry @ [10] @ dataRows t
                   else entry @ [10] @ tableContent)
      in entry)"

text \<open>Lines 424-467: the loop over the entries of \<open>tableResults\<close> (a \<open>Map\<close>, here the
  list of its entries in insertion order) with its variables \<open>globalHeader\<close>, \<open>parts\<close>
  and \<open>index\<close>.\<close>

record aggregation =
  globalHeader :: jsstring
  parts :: "jsstring list"
  index :: nat

fun aggregateLoop ::
  "(int \<rightharpoonup> item) \<Rightarrow> aggregation \<Rightarrow> (int \<times> jsstring) list \<Rightarrow> aggregation"
where
  "aggregateLoop itemMap a [] = a"
| "aggregateLoop itemMap a ((itemId, tableContent) # rest) =
     (let label = blockLabel itemMap (index a) itemId;
          t = splitTableHeaderAndRows tableContent;
          gh = (if globalHeader a = [] \<and> header t \<noteq> [] then header t else globalHeader a)
      in aggregateLoop itemMap
           \<lparr>globalHeader = gh, parts = parts a @ [blockOf label tableContent],
            index = index a + 1\<rparr> rest)"

text \<open>The separator \<open>"\n\n---\n\n"\<close> and the sentence that introduces the header (its
  text in code units, between \<open>**\<close> and \<open>**\<close>).\<close>

definition blockSeparator :: jsstring where
  "blockSeparator = [10, 10] @ js ''---'' @ [10, 10]"

definition headerIntro :: jsstring where
  "headerIntro = js ''**'' @ [34920, 26684, 32467, 26500, 23450, 20041, 65288, 20197, 19979,
     27599, 31687, 25991, 29486, 30340, 25968, 25454, 34892, 22343, 36981, 24490, 27492,
     34920, 22836, 65289, 65306] @ js ''**'' @ [10, 10]"

text \<open>Lines 353-477.\<close>

definition aggregateTableContents :: "(int \<times> jsstring) list \<Rightarrow> pair list \<Rightarrow> jsstring" where
  "aggregateTableContents tableResults itemPdfPairs =
     (let a = aggregateLoop (itemMapOf itemPdfPairs)
                \<lparr>globalHeader = [], parts = [], index = 1\<rparr> tableResults;
          result = (if globalHeader a \<noteq> []
                    then headerIntro @ globalHeader a @ blockSeparator else [])
      in result @ join blockSeparator (parts a))"

section \<open>The table cache: findTableNote and saveTableNote\<close>

text \<open>
  A child note as the service sees it: its tags and its HTML (\<open>getNote()\<close>).  The
  library gives, for the id of an item, what \<open>getNotes()\<close> and then
  \<open>Zotero.Items.getAsync\<close> give: the child notes in the order of \<open>getNotes()\<close>, with
  \<open>None\<close> for an id that no longer resolves to a note.  Reading a note does not fail in
  the model, so the \<open>catch\<close> of findTableNote has no branch here.
\<close>

record childNote =
  noteTags :: "jsstring list"
  noteHtml :: jsstring

type_synonym library = "int \<Rightarrow> childNote option list"

definition TABLE_NOTE_TAG :: jsstring where
  "TABLE_NOTE_TAG = js ''AI-Table''"

definition hasTableTag :: "childNote \<Rightarrow> bool" where
  "hasTableTag n = (TABLE_NOTE_TAG \<in> set (noteTags n))"

text \<open>\<open>s.replace(/lit/g, rep)\<close> for a literal \<open>lit\<close> and a replacement without \<open>$\<close>:
  the matcher of \<open>replaceAll\<close>.\<close>

definition literalMatch ::
  "jsstring \<Rightarrow> jsstring \<Rightarrow> jsstring \<Rightarrow> jsstring \<Rightarrow> (jsstring \<times> jsstring) option" where
  "literalMatch lit rep seen s =
     (if take (length lit) s = lit then Some (rep, drop (length lit) s) else None)"

text \<open>Whether \<open>lit\<close> occurs in \<open>s\<close>.\<close>

fun contains :: "jsstring \<Rightarrow> jsstring \<Rightarrow> bool" where
  "contains lit [] = (lit = [])"
| "contains lit (c # cs) = (take (length lit) (c # cs) = lit \<or> contains lit cs)"

text \<open>Lines 244-246, the pattern
  \<open><(?:div|pre)[^>]*data-ai-table-raw[^>]*>([\s\S]*?)<\/(?:div|pre)>\<close>.
  \<open>untilClose\<close> is the lazy group: the text up to the first closing tag.  \<open>rawAt\<close> is
  the pattern at the front of \<open>s\<close>: the attributes run up to the first \<open>>\<close> and must
  contain the attribute name.  \<open>rawMatch\<close> is \<open>noteContent.match\<close>: the group of the
  leftmost match.\<close>

fun untilClose :: "jsstring \<Rightarrow> jsstring option" where
  "untilClose [] = None"
| "untilClose (c # cs) =
     (if take 6 (c # cs) = js ''</div>'' \<or> take 6 (c # cs) = js ''</pre>'' then Some []
      else map_option ((#) c) (untilClose cs))"

definition rawAt :: "jsstring \<Rightarrow> jsstring option" where
  "rawAt s =
     (if take 4 s = js ''<div'' \<or> take 4 s = js ''<pre''
      then (let attrs = takeWhile (\<lambda>c. c \<noteq> 62) (drop 4 s);
                r = dropWhile (\<lambda>c. c \<noteq> 62) (drop 4 s)
            in if r \<noteq> [] \<and> contains (js ''data-ai-table-raw'') attrs
               then untilClose (tl r) else None)
      else None)"

fun rawMatch :: "jsstring \<Rightarrow> jsstring option" where
  "rawMatch [] = None"
| "rawMatch (c # cs) = (case rawAt (c # cs) of Some g \<Rightarrow> Some g | None \<Rightarrow> rawMatch cs)"

text \<open>Lines 249-254 without the \<open>trim\<close>: the four replacements, in the order of the
  source.\<close>

definition unescapeHtml :: "jsstring \<Rightarrow> jsstring" where
  "unescapeHtml s =
     replaceAll (literalMatch (js ''&quot;'') [34]) []
       (replaceAll (literalMatch (js ''&gt;'') (js ''>'')) []
         (replaceAll (literalMatch (js ''&lt;'') (js ''<'')) []
           (replaceAll (literalMatch (js ''&amp;'') (js ''&'')) [] s)))"

text \<open>Line 258, \<open>/<[^>]*>/g\<close> replaced by the empty string.\<close>

definition tagMatch :: "jsstring \<Rightarrow> jsstring \<Rightarrow> (jsstring \<times> jsstring) option" where
  "tagMatch seen s =
     (case s of [] \<Rightarrow> None
      | c # r \<Rightarrow>
          if c \<noteq> 60 then None
          else (case dropWhile (\<lambda>c. c \<noteq> 62) r of [] \<Rightarrow> None | d # rest \<Rightarrow> Some ([], rest)))"

text \<open>Lines 242-259: what findTableNote returns for the first note with the tag.\<close>

definition legacyText :: "jsstring \<Rightarrow> jsstring option" where
  "legacyText noteContent =
     (let textContent = trim (replaceAll tagMatch [] noteContent) in
      if textContent \<noteq> [] then Some textContent else None)"

definition tableTextOf :: "jsstring \<Rightarrow> jsstring option" where
  "tableTextOf noteContent =
     (case rawMatch noteContent of
        None \<Rightarrow> legacyText noteContent
      | Some rawGroup \<Rightarrow>
          if rawGroup \<noteq> []
          then (let raw = trim (unescapeHtml rawGroup) in
                if raw \<noteq> [] then Some raw else None)
          else legacyText noteContent)"

text \<open>Lines 236-262: the loop over the notes.\<close>

fun findInNotes :: "childNote option list \<Rightarrow> jsstring option" where
  "findInNotes [] = None"
| "findInNotes (None # ns) = findInNotes ns"
| "findInNotes (Some n # ns) =
     (if hasTableTag n then tableTextOf (noteHtml n) else findInNotes ns)"

definition findTableNote :: "library \<Rightarrow> item \<Rightarrow> jsstring option" where
  "findTableNote lib it = findInNotes (lib (itemID it))"

text \<open>Lines 285-293: the first note with the tag.\<close>

fun firstTableNote :: "childNote option list \<Rightarrow> childNote option" where
  "firstTableNote [] = None"
| "firstTableNote (None # ns) = firstTableNote ns"
| "firstTableNote (Some n # ns) = (if hasTableTag n then Some n else firstTableNote ns)"

text \<open>Lines 307-321: the three rewrites of the HTML that \<open>marked.parse\<close> returns.
  \<open>styleMatch\<close> is \<open>/\s+style="[^"]*"/\<close>; \<open>blockMathMatch\<close> is \<open>/\$\$([\s\S]*?)\$\$/\<close>
  with its callback; \<open>inlineMathMatch\<close> is
  \<open>/(?<!\$)\$(?!\$)([^$\n]+?)(?<!\$)\$(?!\$)/\<close> with its callback.\<close>

fun untilLit :: "jsstring \<Rightarrow> jsstring \<Rightarrow> (jsstring \<times> jsstring) option" where
  "untilLit lit [] = None"
| "untilLit lit (c # cs) =
     (if take (length lit) (c # cs) = lit then Some ([], drop (length lit) (c # cs))
      else map_option (\<lambda>(g, r). (c # g, r)) (untilLit lit cs))"

definition styleMatch :: "jsstring \<Rightarrow> jsstring \<Rightarrow> (jsstring \<times> jsstring) option" where
  "styleMatch seen s =
     (let r = dropWhile isSpace s in
      if takeWhile isSpace s \<noteq> [] \<and> take 7 r = js ''style='' @ [34]
      then (case dropWhile (\<lambda>c. c \<noteq> 34) (drop 7 r) of
              [] \<Rightarrow> None | q # rest \<Rightarrow> Some ([], rest))
      else None)"

definition blockMathMatch :: "jsstring \<Rightarrow> jsstring \<Rightarrow> (jsstring \<times> jsstring) option" where
  "blockMathMatch seen s =
     (if take 2 s = js ''$$''
      then (case untilLit (js ''$$'') (drop 2 s) of
              None \<Rightarrow> None
            | Some (formula, rest) \<Rightarrow>
                Some (js ''<span class='' @ [34] @ js ''math'' @ [34] @ js ''>$''
                        @ [92] @ js ''displaystyle '' @ trim formula @ js ''$</span>'', rest))
      else None)"

definition inlineMathMatch :: "jsstring \<Rightarrow> jsstring \<Rightarrow> (jsstring \<times> jsstring) option" where
  "inlineMathMatch seen s =
     (case s of [] \<Rightarrow> None
      | c # r \<Rightarrow>
          let formula = takeWhile (\<lambda>c. c \<noteq> 36 \<and> c \<noteq> 10) r;
              r' = dropWhile (\<lambda>c. c \<noteq> 36 \<and> c \<noteq> 10) r
          in if c = 36 \<and> (seen = [] \<or> last seen \<noteq> 36) \<and> formula \<noteq> []
                \<and> take 1 r' = js ''$'' \<and> take 1 (drop 1 r') \<noteq> js ''$''
             then Some (js ''<span class='' @ [34] @ js ''math'' @ [34] @ js ''>$''
                          @ trim formula @ js ''$</span>'', drop 1 r')
             else None)"

definition displayHtml :: "jsstring \<Rightarrow> jsstring" where
  "displayHtml parsed =
     replaceAll inlineMathMatch []
       (replaceAll blockMathMatch [] (replaceAll styleMatch [] parsed))"

text \<open>Lines 324-327: the three replacements, in the order of the source.\<close>

definition escapeHtml :: "jsstring \<Rightarrow> jsstring" where
  "escapeHtml tableContent =
     replaceAll (literalMatch (js ''>'') (js ''&gt;'')) []
       (replaceAll (literalMatch (js ''<'') (js ''&lt;'')) []
         (replaceAll (literalMatch (js ''&'') (js ''&amp;'')) [] tableContent))"

text \<open>Lines 298-301 and 328-331.  The heading starts with U+D83D U+DCCA, a space,
  U+6587 U+732E U+8868 U+683C and \<open>" - "\<close>.  \<open>visibleHtml\<close> is the heading and the
  rendered table, \<open>hiddenHtml\<close> the element that keeps the markdown.\<close>

definition itemTitle :: "item \<Rightarrow> jsstring" where
  "itemTitle it = take 60 (if title it \<noteq> [] then title it else unknownText)"

definition visibleHtml :: "item \<Rightarrow> jsstring \<Rightarrow> jsstring" where
  "visibleHtml it renderedHtml =
     js ''<h2>'' @ [55357, 56522, 32, 25991, 29486, 34920, 26684, 32, 45, 32] @ itemTitle it
       @ js ''</h2>'' @ js ''<div>'' @ renderedHtml @ js ''</div>''"

definition hiddenHtml :: "jsstring \<Rightarrow> jsstring" where
  "hiddenHtml tableContent =
     js ''<div style='' @ [34] @ js ''display:none'' @ [34] @ js '' data-ai-table-raw>''
       @ escapeHtml tableContent @ js ''</div>''"

text \<open>
  Lines 277-341.  Two things come from outside the repository: \<open>markedParse\<close>, the HTML
  that \<open>marked.parse\<close> returns for the markdown, and \<open>position\<close>, the place at which
  \<open>getNotes()\<close> lists the note that is saved.  The result is the note returned and the
  library after the call.  When line 283 finds a text but the loop of lines 286-293 finds
  no note, the source goes on to create one; so does the model.
\<close>

definition insertAt :: "nat \<Rightarrow> 'a \<Rightarrow> 'a list \<Rightarrow> 'a list" where
  "insertAt k x xs = take k xs @ [x] @ drop k xs"

definition newTableNote :: "(jsstring \<Rightarrow> jsstring) \<Rightarrow> item \<Rightarrow> jsstring \<Rightarrow> childNote" where
  "newTableNote markedParse it tableContent =
     \<lparr>noteTags = [TABLE_NOTE_TAG],
      noteHtml = visibleHtml it (displayHtml (markedParse tableContent))
                   @ hiddenHtml tableContent\<rparr>"

definition saveTableNote ::
  "(jsstring \<Rightarrow> jsstring) \<Rightarrow> nat \<Rightarrow> library \<Rightarrow> item \<Rightarrow> jsstring \<Rightarrow> childNote \<times> library"
where
  "saveTableNote markedParse position lib it tableContent =
     (let created = newTableNote markedParse it tableContent;
          lib' = lib(itemID it := insertAt position (Some created) (lib (itemID it)))
      in if findTableNote lib it \<noteq> None
         then (case firstTableNote (lib (itemID it)) of
                 Some n \<Rightarrow> (n, lib)
               | None \<Rightarrow> (created, lib'))
         else (created, lib'))"

section \<open>fillTablesInParallel\<close>

text \<open>
  What the scheduler gets from outside.  \<open>fillTable\<close> is the call of
  fillTableForSinglePDF for a pair (lines 177-225: it reads the file and calls the
  language model): the table it returns, or the message of what it throws.
  \<open>saveFailure\<close> is the message of what the creation of the note throws for a pair
  (lines 298-338: \<open>marked.parse\<close> or \<open>saveTx\<close>), when it fails; no note is stored then.
  \<open>marked\<close> and \<open>notePosition\<close> are the two parameters of saveTableNote.  A thrown
  value is its message, as line 526 reads it.
\<close>

record collaborators =
  fillTable :: "pair \<Rightarrow> jsstring + jsstring"
  saveFailure :: "pair \<Rightarrow> jsstring option"
  marked :: "jsstring \<Rightarrow> jsstring"
  notePosition :: nat

text \<open>\<open>results.set(k, v)\<close> on a \<open>Map\<close>, kept as the list of its entries in insertion
  order.\<close>

fun mapSet :: "int \<Rightarrow> jsstring \<Rightarrow> (int \<times> jsstring) list \<Rightarrow> (int \<times> jsstring) list" where
  "mapSet k v [] = [(k, v)]"
| "mapSet k v ((k', v') # m) = (if k' = k then (k, v) # m else (k', v') # mapSet k v m)"

text \<open>Line 526: the text recorded for a pair that failed; between the parenthesis and
  the colon are U+586B U+8868 U+5931 U+8D25.\<close>

definition placeholder :: "jsstring \<Rightarrow> jsstring" where
  "placeholder message = js ''('' @ [22635, 34920, 22833, 36133] @ js '': '' @ message @ js '')''"

text \<open>Lines 235 and 285: \<open>item.getNotes()\<close>, the notes of the item at the moment of the
  call.\<close>

definition getNotes :: "library \<Rightarrow> item \<Rightarrow> childNote option list" where
  "getNotes lib it = lib (itemID it)"

text \<open>Lines 298-338: the note of saveTableNote is created and stored.\<close>

definition storeNote :: "collaborators \<Rightarrow> pair \<Rightarrow> jsstring \<Rightarrow> library \<Rightarrow> library" where
  "storeNote c task table lib =
     lib(itemID (parentItem task) :=
           insertAt (notePosition c) (Some (newTableNote (marked c) (parentItem task) table))
             (lib (itemID (parentItem task))))"

text \<open>
  The workers of lines 501-532 run interleaved: a worker runs until its next \<open>await\<close>,
  then another one may run.  findTableNote and saveTableNote await inside, so the model
  follows a worker through them.  What a worker waits at:

  \<^item> \<open>Finding task notes\<close>: the findTableNote of line 506.  Line 235 read the list of
    the notes of the item when the call was made, \<open>notes\<close>, and the loop of lines
    236-261 awaits the notes of this list one after the other.
  \<^item> \<open>Filling task\<close>: the fillTableForSinglePDF of line 510.
  \<^item> \<open>Checking task table notes\<close>: the findTableNote of line 282, which saveTableNote
    (line 516) called with the list of notes \<open>notes\<close> of that moment.
  \<^item> \<open>Fetching task table notes\<close>: the loop of lines 286-293 over the list \<open>notes\<close>
    that line 285 read.
  \<^item> \<open>Writing task table\<close>: the \<open>saveTx\<close> of line 338, the note not yet among the notes
    of the item.
  \<^item> \<open>Written task table\<close>: the same \<open>saveTx\<close>, the note now among the notes of the
    item.
  \<^item> \<open>Done\<close>: the worker has left its loop.

  A note is never changed once it is stored, so what the loops find is fixed by the
  list read before them; awaits that follow each other with nothing shared read or
  written in between are one turn.  The state of the pool is the variables the workers
  share (\<open>queue\<close>, \<open>results\<close>, \<open>completed\<close>, \<open>total\<close>), the library, what each worker
  waits at, and five logs: the calls of the progress callback, the calls of
  fillTableForSinglePDF, what the findTableNote of line 506 returned for a pair, the
  calls of saveTableNote, and the calls of \<open>results.set\<close> with the pair they were made
  for.
\<close>

datatype phase =
    Finding pair "childNote option list"
  | Filling pair
  | Checking pair jsstring "childNote option list"
  | Fetching pair jsstring "childNote option list"
  | Writing pair jsstring
  | Written pair jsstring
  | Done

record pool =
  queue :: "pair list"
  results :: "(int \<times> jsstring) list"
  completed :: nat
  total :: nat
  library :: library
  workers :: "phase list"
  progressCalls :: "(nat \<times> nat) list"
  fillCalls :: "pair list"
  lookups :: "(pair \<times> jsstring option) list"
  saveCalls :: "(pair \<times> jsstring) list"
  setCalls :: "(pair \<times> jsstring) list"

text \<open>Lines 502-503 and 506 with 235: the head of the loop of worker \<open>i\<close>.  The worker
  takes the head of the queue and calls findTableNote, which reads the list of the notes
  before it awaits.\<close>

definition loopHead :: "nat \<Rightarrow> pool \<Rightarrow> pool" where
  "loopHead i s =
     (case queue s of
        [] \<Rightarrow> s\<lparr>workers := (workers s)[i := Done]\<rparr>
      | task # rest \<Rightarrow>
          s\<lparr>queue := rest,
            workers := (workers s)[i := Finding task (getNotes (library s) (parentItem task))]\<rparr>)"

text \<open>Lines 508, 517 or 524-527, then 529-530 and the head of the loop: worker \<open>i\<close>
  records \<open>text\<close> for its task and goes on.\<close>

definition complete :: "nat \<Rightarrow> pair \<Rightarrow> jsstring \<Rightarrow> pool \<Rightarrow> pool" where
  "complete i task text s =
     loopHead i
       (s\<lparr>results := mapSet (itemID (parentItem task)) text (results s),
          completed := completed s + 1,
          progressCalls := progressCalls s @ [(completed s + 1, total s)],
          setCalls := setCalls s @ [(task, text)]\<rparr>)"

text \<open>One turn of worker \<open>i\<close>: from the \<open>await\<close> it waits at to its next one.\<close>

definition advance :: "collaborators \<Rightarrow> nat \<Rightarrow> pool \<Rightarrow> pool" where
  "advance c i s =
     (if i < length (workers s) then
        (case workers s ! i of
           Finding task notes \<Rightarrow>
             (case findInNotes notes of
                Some existing \<Rightarrow>
                  complete i task existing
                    (s\<lparr>lookups := lookups s @ [(task, Some existing)]\<rparr>)
              | None \<Rightarrow> s\<lparr>workers := (workers s)[i := Filling task],
                           fillCalls := fillCalls s @ [task],
                           lookups := lookups s @ [(task, None)]\<rparr>)
         | Filling task \<Rightarrow>
             (case fillTable c task of
                Inr table \<Rightarrow>
                  s\<lparr>workers := (workers s)
                         [i := Checking task table (getNotes (library s) (parentItem task))],
                    saveCalls := saveCalls s @ [(task, table)]\<rparr>
              | Inl message \<Rightarrow> complete i task (placeholder message) s)
         | Checking task table notes \<Rightarrow>
             (if findInNotes notes \<noteq> None
              then s\<lparr>workers := (workers s)
                         [i := Fetching task table (getNotes (library s) (parentItem task))]\<rparr>
              else s\<lparr>workers := (workers s)[i := Writing task table]\<rparr>)
         | Fetching task table notes \<Rightarrow>
             (if firstTableNote notes \<noteq> None then complete i task table s
              else s\<lparr>workers := (workers s)[i := Writing task table]\<rparr>)
         | Writing task table \<Rightarrow>
             (case saveFailure c task of
                None \<Rightarrow> s\<lparr>library := storeNote c task table (library s),
                           workers := (workers s)[i := Written task table]\<rparr>
              | Some message \<Rightarrow> complete i task (placeholder message) s)
         | Written task table \<Rightarrow> complete i task table s
         | Done \<Rightarrow> s)
      else s)"

text \<open>
  Lines 496-499 and 535-538.  \<open>Array.from({length: n}, () => worker())\<close> calls the
  workers one after the other, and each runs to its first \<open>await\<close>: it takes the head of
  the queue and calls findTableNote, which reads the notes of the item.  There are
  \<open>min(concurrency, total)\<close> workers, none when this is not positive.
\<close>

definition startPool :: "pair list \<Rightarrow> int \<Rightarrow> library \<Rightarrow> pool" where
  "startPool items concurrency lib =
     (let effectiveConcurrency = nat (min concurrency (int (length items))) in
      \<lparr>queue = drop effectiveConcurrency items, results = [], completed = 0,
       total = length items, library = lib,
       workers = map (\<lambda>task. Finding task (getNotes lib (parentItem task)))
                   (take effectiveConcurrency items),
       progressCalls = [], fillCalls = [], lookups = [], saveCalls = [], setCalls = []\<rparr>)"

text \<open>A schedule is the order in which the workers get their turns; a worker that has
  left its loop has no turn to take.\<close>

definition run :: "collaborators \<Rightarrow> nat list \<Rightarrow> pool \<Rightarrow> pool" where
  "run c schedule s = foldl (\<lambda>s i. advance c i s) s schedule"

definition allDone :: "pool \<Rightarrow> bool" where
  "allDone s = list_all (\<lambda>p. p = Done) (workers s)"

text \<open>Lines 489-541: \<open>Promise.all\<close> resolves when every worker has left its loop, and
  then the map of the results is returned.\<close>

definition fillTablesInParallel ::
  "collaborators \<Rightarrow> nat list \<Rightarrow> pair list \<Rightarrow> int \<Rightarrow> library \<Rightarrow> (int \<times> jsstring) list option"
where
  "fillTablesInParallel c schedule items concurrency lib =
     (let s = run c schedule (startPool items concurrency lib) in
      if allDone s then Some (results s) else None)"

section \<open>Auxiliary notions for the scheduler\<close>

text \<open>A worker is busy until it has left its loop.  \<open>countInv\<close> is what the shared
  counters keep true between the turns of the workers.  \<open>remaining\<close> bounds the turns
  that are left: seven for a pair in the queue, and what the pair of a worker still
  needs.\<close>

definition busy :: "phase \<Rightarrow> bool" where
  "busy p = (p \<noteq> Done)"

definition countInv :: "pool \<Rightarrow> bool" where
  "countInv s =
     (progressCalls s = map (\<lambda>k. (k, total s)) [1..<Suc (completed s)]
      \<and> completed s + length (queue s) + length (filter busy (workers s)) = total s
      \<and> (Done \<in> set (workers s) \<longrightarrow> queue s = []))"

fun weight :: "phase \<Rightarrow> nat" where
  "weight (Finding t notes) = 6"
| "weight (Filling t) = 5"
| "weight (Checking t table notes) = 4"
| "weight (Fetching t table notes) = 3"
| "weight (Writing t table) = 2"
| "weight (Written t table) = 1"
| "weight Done = 0"

definition remaining :: "pool \<Rightarrow> nat" where
  "remaining s = 7 * length (queue s) + sum_list (map weight (workers s))"

section \<open>Auxiliary notions for the results of the scheduler\<close>

text \<open>The source of a pair is the item its text is recorded under (lines 508, 517, 524).
  \<open>nextPhase\<close> is what a worker waits at after the head of its loop.  The pair of a
  worker that waits for findTableNote, for fillTableForSinglePDF, or inside saveTableNote,
  is given by \<open>findingTask\<close>, \<open>fillingTask\<close> and \<open>savingTask\<close>.  \<open>recordAll\<close> replays
  a log of \<open>results.set\<close> calls on the empty map, and \<open>misses\<close> are the pairs for which
  findTableNote returned null.  A miss is \<open>served\<close> when its extractor call is still
  awaited, or has thrown and the placeholder was recorded, or has returned a table that
  was passed to saveTableNote and then either is still being saved, or was recorded, or
  could not be saved.  \<open>logInv\<close> is what the five logs keep true between the turns of
  the workers.\<close>

definition sourceId :: "pair \<Rightarrow> int" where
  "sourceId t = itemID (parentItem t)"

definition nextPhase :: "pool \<Rightarrow> phase" where
  "nextPhase s =
     (case queue s of
        [] \<Rightarrow> Done
      | u # rest \<Rightarrow> Finding u (getNotes (library s) (parentItem u)))"

fun findingTask :: "phase \<Rightarrow> pair list" where
  "findingTask (Finding t notes) = [t]"
| "findingTask p = []"

fun fillingTask :: "phase \<Rightarrow> pair list" where
  "fillingTask (Filling t) = [t]"
| "fillingTask p = []"

fun savingTask :: "phase \<Rightarrow> (pair \<times> jsstring) list" where
  "savingTask (Checking t table notes) = [(t, table)]"
| "savingTask (Fetching t table notes) = [(t, table)]"
| "savingTask (Writing t table) = [(t, table)]"
| "savingTask (Written t table) = [(t, table)]"
| "savingTask p = []"





text \<open>A pair is pending while it is in the queue or a worker holds it.  \<open>outcome\<close> is
  the text that lines 506-527 record for one pair taken alone, read from the library the
  batch started with.  \<open>phaseOK\<close> says, for batches whose sources are distinct, what a
  worker knows at each \<open>await\<close>: the notes it has read are those the item had at the
  start, and the notes of the item are still those while the pair is looked up or
  filled.  \<open>outcomeInv\<close> is what such a batch keeps true between the turns of the
  workers: a pair that is no longer pending has exactly its \<open>outcome\<close> in the results
  map.\<close>

fun taskList :: "phase \<Rightarrow> pair list" where
  "taskList (Finding t notes) = [t]"
| "taskList (Filling t) = [t]"
| "taskList (Checking t table notes) = [t]"
| "taskList (Fetching t table notes) = [t]"
| "taskList (Writing t table) = [t]"
| "taskList (Written t table) = [t]"
| "taskList Done = []"

definition held :: "phase list \<Rightarrow> pair list" where
  "held ws = concat (map taskList ws)"

definition pendingList :: "pool \<Rightarrow> pair list" where
  "pendingList s = queue s @ held (workers s)"

definition outcome :: "collaborators \<Rightarrow> library \<Rightarrow> pair \<Rightarrow> jsstring" where
  "outcome c lib t =
     (case findTableNote lib (parentItem t) of
        Some existing \<Rightarrow> existing
      | None \<Rightarrow>
          (case fillTable c t of
             Inl message \<Rightarrow> placeholder message
           | Inr table \<Rightarrow>
               (case saveFailure c t of
                  Some message \<Rightarrow> placeholder message
                | None \<Rightarrow> table)))"

fun phaseOK :: "collaborators \<Rightarrow> library \<Rightarrow> library \<Rightarrow> phase \<Rightarrow> bool" where
  "phaseOK c lib now (Finding t notes) =
     (notes = lib (sourceId t) \<and> now (sourceId t) = lib (sourceId t))"
| "phaseOK c lib now (Filling t) =
     (findTableNote lib (parentItem t) = None \<and> now (sourceId t) = lib (sourceId t))"
| "phaseOK c lib now (Checking t table notes) =
     (findTableNote lib (parentItem t) = None \<and> fillTable c t = Inr table
      \<and> notes = lib (sourceId t))"
| "phaseOK c lib now (Fetching t table notes) = False"
| "phaseOK c lib now (Writing t table) =
     (findTableNote lib (parentItem t) = None \<and> fillTable c t = Inr table)"
| "phaseOK c lib now (Written t table) =
     (findTableNote lib (parentItem t) = None \<and> fillTable c t = Inr table
      \<and> saveFailure c t = None)"
| "phaseOK c lib now Done = True"

definition outcomeInv :: "collaborators \<Rightarrow> pair list \<Rightarrow> library \<Rightarrow> pool \<Rightarrow> bool" where
  "outcomeInv c items lib s =
     (distinct (pendingList s)
      \<and> set (pendingList s) \<subseteq> set items
      \<and> list_all (phaseOK c lib (library s)) (workers s)
      \<and> list_all (\<lambda>t. library s (sourceId t) = lib (sourceId t)) (queue s)
      \<and> list_all (\<lambda>t. t \<in> set (pendingList s)
                       \<or> map_of (results s) (sourceId t) = Some (outcome c lib t)) items)"

section \<open>Auxiliary notions for the table cache\<close>

text \<open>What the three replacements of lines 324-327 do to one code unit, and what is
  left of it after the first and after the second replacement of lines 250-253 have
  been undone.\<close>

definition escChar :: "jschar \<Rightarrow> jsstring" where
  "escChar c = (if c = 38 then [38, 97, 109, 112, 59] else if c = 60 then [38, 108, 116, 59]
                else if c = 62 then [38, 103, 116, 59] else [c])"

definition escLtGt :: "jschar \<Rightarrow> jsstring" where
  "escLtGt c = (if c = 60 then [38, 108, 116, 59] else if c = 62 then [38, 103, 116, 59] else [c])"

definition escGt :: "jschar \<Rightarrow> jsstring" where
  "escGt c = (if c = 62 then [38, 103, 116, 59] else [c])"


text \<open>No note of the list carries the tag of the table notes.\<close>

definition noTableNote :: "childNote option list \<Rightarrow> bool" where
  "noTableNote ns = list_all (\<lambda>n. case n of None \<Rightarrow> True | Some n \<Rightarrow> \<not> hasTableTag n) ns"


section \<open>The aggregation as the specification describes it\<close>

text \<open>
  The specification's words for the three parts of a table text: of the non-empty
  trimmed lines, the lines that start with a pipe up to and including the first separator
  line are the header block, the later lines that start with a pipe are the data rows,
  and the other lines are free text.  The global header is the header block of the first
  table that has one, and there is one block per entry of the results, numbered from 1.
\<close>

definition contentLines :: "jsstring list \<Rightarrow> jsstring list" where
  "contentLines lines = filter (\<lambda>l. l \<noteq> []) (map trim lines)"

definition pipeLines :: "jsstring list \<Rightarrow> jsstring list" where
  "pipeLines lines = filter startsWithPipe (contentLines lines)"

definition freeLines :: "jsstring list \<Rightarrow> jsstring list" where
  "freeLines lines = filter (\<lambda>l. \<not> startsWithPipe l) (contentLines lines)"

fun uptoSeparator :: "jsstring list \<Rightarrow> jsstring list" where
  "uptoSeparator [] = []"
| "uptoSeparator (l # ls) = l # (if isSeparatorLine l then [] else uptoSeparator ls)"

fun afterSeparator :: "jsstring list \<Rightarrow> jsstring list" where
  "afterSeparator [] = []"
| "afterSeparator (l # ls) = (if isSeparatorLine l then ls else afterSeparator ls)"

definition firstHeader :: "(int \<times> jsstring) list \<Rightarrow> jsstring" where
  "firstHeader tableResults =
     (case find (\<lambda>(itemId, t). header (splitTableHeaderAndRows t) \<noteq> []) tableResults of
        None \<Rightarrow> []
      | Some (itemId, t) \<Rightarrow> header (splitTableHeaderAndRows t))"

definition blocksOf :: "(int \<rightharpoonup> item) \<Rightarrow> nat \<Rightarrow> (int \<times> jsstring) list \<Rightarrow> jsstring list" where
  "blocksOf itemMap n tableResults =
     map (\<lambda>(k, (itemId, t)). blockOf (blockLabel itemMap k itemId) t) (enumerate n tableResults)"

text \<open>The number of positions of \<open>s\<close> at which \<open>pat\<close> occurs.\<close>

fun occurrences :: "jsstring \<Rightarrow> jsstring \<Rightarrow> nat" where
  "occurrences pat [] = (if pat = [] then 1 else 0)"
| "occurrences pat (c # cs) =
     (if take (length pat) (c # cs) = pat then 1 else 0) + occurrences pat cs"


section \<open>Concrete inputs\<close>

definition exTable :: jsstring where
  "exTable = js ''|a|'' @ [10] @ js ''|-|'' @ [10] @ js ''|1|''"

definition exHeaderOnly :: jsstring where
  "exHeaderOnly = js ''|a|'' @ [10] @ js ''|-|''"

definition exTableB :: jsstring where
  "exTableB = js ''|a|'' @ [10] @ js ''|-|'' @ [10] @ js ''|2|''"

definition exNicoleau :: pair where
  "exNicoleau = \<lparr>parentItem = \<lparr>itemID = 1, key = js ''K1'', title = js ''Growth'',
      date = js ''2014-05'', creators = [\<lparr>lastName = js ''Nicoleau'', name = []\<rparr>]\<rparr>,
    pdfAttachment = \<lparr>attachmentID = 11, filePath = js ''/a.pdf''\<rparr>\<rparr>"

definition exShortName :: pair where
  "exShortName = \<lparr>parentItem = \<lparr>itemID = 2, key = js ''K2'', title = js ''Notes'',
      date = js ''2014'', creators = [\<lparr>lastName = js ''A'', name = []\<rparr>]\<rparr>,
    pdfAttachment = \<lparr>attachmentID = 12, filePath = js ''/b.pdf''\<rparr>\<rparr>"


definition exItem :: item where
  "exItem = \<lparr>itemID = 7, key = js ''K7'', title = js ''T'', date = js ''2020'', creators = []\<rparr>"

definition exParse :: "jsstring \<Rightarrow> jsstring" where
  "exParse md = js ''<p>t</p>''"

definition exLibrary :: library where
  "exLibrary = (\<lambda>i. [])"

definition exPair :: "int \<Rightarrow> pair" where
  "exPair i = \<lparr>parentItem = \<lparr>itemID = i, key = js ''K'', title = js ''T'', date = js ''2014'',
      creators = []\<rparr>, pdfAttachment = \<lparr>attachmentID = i + 100, filePath = js ''/p.pdf''\<rparr>\<rparr>"

definition exCollaborators :: collaborators where
  "exCollaborators = \<lparr>fillTable = (\<lambda>p. if itemID (parentItem p) = 2 then Inl (js ''boom'')
                                        else Inr (js ''|t|'')),
     saveFailure = (\<lambda>p. None), marked = exParse, notePosition = 0\<rparr>"


definition exSecondPdf :: pair where
  "exSecondPdf = \<lparr>parentItem = parentItem (exPair 1),
     pdfAttachment = \<lparr>attachmentID = 102, filePath = js ''/q.pdf''\<rparr>\<rparr>"

definition exClash :: collaborators where
  "exClash = \<lparr>fillTable = (\<lambda>p. if attachmentID (pdfAttachment p) = 101 then Inl (js ''boom'')
                                else Inr (js ''|t|'')),
     saveFailure = (\<lambda>p. None), marked = exParse, notePosition = 0\<rparr>"

section \<open>First registration wins\<close>

lemma map_of_snoc_fresh:
  "map_of (idx @ [(k, e)]) k' = (case map_of idx k' of Some v \<Rightarrow> Some v
      | None \<Rightarrow> if k' = k then Some e else None)"
  by (simp add: map_add_def split: option.splits)

lemma registerCreators_lookup:
  "map_of (registerCreators lc it year idx cs) k =
     (case map_of idx k of Some e \<Rightarrow> Some e
      | None \<Rightarrow> map_of (creatorRegistrations lc it year cs) k)"
proof (induction cs arbitrary: idx)
  case Nil
  show ?case by (simp add: creatorRegistrations_def split: option.splits)
next
  case (Cons c cs)
  show ?case
  proof (cases "creatorSurname c = []")
    case True
    then show ?thesis using Cons.IH [of idx]
      by (simp add: creatorRegistrations_def split: option.splits)
  next
    case False
    let ?k = "lookupKey lc (creatorSurname c) year"
    show ?thesis
    proof (cases "has idx ?k")
      case True
      then obtain v where v: "map_of idx ?k = Some v"
        by (auto simp: has_def)
      show ?thesis using False True v Cons.IH [of idx]
        by (auto simp: creatorRegistrations_def Let_def split: option.splits)
    next
      case nohas: False
      then have none: "map_of idx ?k = None" by (simp add: has_def)
      show ?thesis using False nohas none Cons.IH [of "idx @ [(?k, itemEntry it)]"]
        by (auto simp: creatorRegistrations_def Let_def map_add_def split: option.splits)
    qed
  qed
qed

lemma buildIndexFrom_lookup:
  "map_of (buildIndexFrom lc idx ps) k =
     (case map_of idx k of Some e \<Rightarrow> Some e | None \<Rightarrow> map_of (registrations lc ps) k)"
proof (induction ps arbitrary: idx)
  case Nil
  show ?case by (simp add: registrations_def split: option.splits)
next
  case (Cons p ps)
  let ?it = "parentItem p"
  show ?case
  proof (cases "itemYear ?it = [] \<or> creators ?it = []")
    case True
    then have "registrations lc (p # ps) = registrations lc ps"
      by (auto simp: registrations_def creatorRegistrations_def)
    then show ?thesis using True Cons.IH [of idx]
      by (simp add: Let_def split: option.splits)
  next
    case False
    have reg: "registrations lc (p # ps) =
        creatorRegistrations lc ?it (itemYear ?it) (creators ?it) @ registrations lc ps"
      using False by (simp add: registrations_def)
    show ?thesis
      using False
        Cons.IH [of "registerCreators lc ?it (itemYear ?it) idx (creators ?it)"]
      by (simp add: Let_def reg registerCreators_lookup map_add_def split: option.splits)
  qed
qed

text \<open>
  Claim C6.  While postProcessCitations builds the index, an entry that is already in
  the index is never overwritten, whatever sources and creators follow; hence the entry
  of a key in the finished index is the first one (in loop order) registered for it.
\<close>

theorem index_first_seen_wins:
  "map_of (buildIndexFrom toLowerCase idx ps) k =
     (case map_of idx k of Some e \<Rightarrow> Some e
      | None \<Rightarrow> map_of (registrations toLowerCase ps) k)
   \<and> map_of (buildIndex toLowerCase ps) k = map_of (registrations toLowerCase ps) k"
  by (simp add: buildIndex_def buildIndexFrom_lookup)

section \<open>The parenthetical pass\<close>

lemmas char_defs = js_def isSpace_def isDigit_def isLower_def isUpper_def notParen_def isWord_def
  isNameChar_def isDot_def

lemma exNicoleau_index:
  "buildIndex asciiLower [exNicoleau] = [(js ''nicoleau|2014'', itemEntry (parentItem exNicoleau))]"
  by (simp add: buildIndex_def exNicoleau_def itemYear_def Let_def
        creatorSurname_def trim_def has_def lookupKey_def asciiLower_def char_defs)

lemma exShortName_index:
  "buildIndex asciiLower [exShortName] = [(js ''a|2014'', itemEntry (parentItem exShortName))]"
  by (simp add: buildIndex_def exShortName_def itemYear_def Let_def
        creatorSurname_def trim_def has_def lookupKey_def asciiLower_def char_defs)


lemma parenMatch_seen: "parenMatch lc idx seen s = parenMatch lc idx [] s"
  by (simp add: parenMatch_def)

lemma replaceAll_paren_seen:
  "replaceAll (parenMatch lc idx) seen s = replaceAll (parenMatch lc idx) [] s"
proof (induction "length s" arbitrary: s seen rule: less_induct)
  case less
  show ?case
  proof (cases s)
    case Nil
    then show ?thesis by simp
  next
    case (Cons c cs)
    have m: "parenMatch lc idx seen (c # cs) = parenMatch lc idx [] (c # cs)"
      by (rule parenMatch_seen)
    have tl: "\<And>sn. replaceAll (parenMatch lc idx) sn cs = replaceAll (parenMatch lc idx) [] cs"
      using less [of cs] Cons by simp
    show ?thesis
    proof (cases "parenMatch lc idx [] (c # cs)")
      case None
      then show ?thesis using Cons m tl [of "seen @ [c]"] tl [of "[c]"] by simp
    next
      case (Some a)
      obtain rep rest where a: "a = (rep, rest)" by (cases a)
      show ?thesis
      proof (cases "length rest < length (c # cs)")
        case True
        then have "\<And>sn. replaceAll (parenMatch lc idx) sn rest = replaceAll (parenMatch lc idx) [] rest"
          using less [of rest] Cons by simp
        then show ?thesis using Cons m Some a True
          by (simp del: parenMatch_seen) metis
      next
        case False
        then show ?thesis using Cons m Some a tl [of "seen @ [c]"] tl [of "[c]"] by simp
      qed
    qed
  qed
qed

lemma parenMatch_rest_shorter:
  "parenMatch lc idx seen s = Some (rep, rest) \<Longrightarrow> length rest < length s"
proof -
  assume a: "parenMatch lc idx seen s = Some (rep, rest)"
  then obtain c r where s: "s = c # r" by (cases s) (auto simp: parenMatch_def)
  from a s obtain d where "dropWhile notParen r = d # rest"
    by (auto simp: parenMatch_def split: if_splits list.splits)
  then have "length rest < length r"
    using length_dropWhile_le [of notParen r] by simp
  then show ?thesis using s by simp
qed

lemma parenMatch_append_open:
  assumes "u \<noteq> []"
  shows "parenMatch lc idx seen (u @ 40 # t) =
         map_option (\<lambda>(rep, rest). (rep, rest @ 40 # t)) (parenMatch lc idx seen u)"
proof -
  from assms obtain c r where u: "u = c # r" by (cases u) auto
  show ?thesis
  proof (cases "list_all notParen r")
    case True
    then have d1: "dropWhile notParen r = []"
      and d2: "dropWhile notParen (r @ 40 # t) = 40 # t"
      by (auto simp: list_all_iff dropWhile_append notParen_def)
    show ?thesis unfolding u parenMatch_def using d1 d2
      by (simp del: dropWhile_eq_Nil_conv)
  next
    case False
    then obtain x where x: "x \<in> set r" "\<not> notParen x" by (auto simp: list_all_iff)
    then have d: "dropWhile notParen (r @ 40 # t) = dropWhile notParen r @ 40 # t"
      and tk: "takeWhile notParen (r @ 40 # t) = takeWhile notParen r"
      by (auto simp: dropWhile_append takeWhile_append)
    from x have "dropWhile notParen r \<noteq> []" by auto
    then obtain d' rest where dr: "dropWhile notParen r = d' # rest" by (cases "dropWhile notParen r") auto
    show ?thesis using u d tk dr by (simp add: parenMatch_def)
  qed
qed

lemma replaceAll_paren_append_open:
  "replaceAll (parenMatch lc idx) [] (pre @ 40 # t) =
   replaceAll (parenMatch lc idx) [] pre @ replaceAll (parenMatch lc idx) [] (40 # t)"
proof (induction "length pre" arbitrary: pre rule: less_induct)
  case less
  show ?case
  proof (cases pre)
    case Nil
    then show ?thesis by simp
  next
    case (Cons c cs)
    let ?m = "parenMatch lc idx"
    have ap: "?m [] ((c # cs) @ 40 # t) = map_option (\<lambda>(rep, rest). (rep, rest @ 40 # t)) (?m [] (c # cs))"
      by (rule parenMatch_append_open) simp
    have tl: "replaceAll ?m [] (cs @ 40 # t) = replaceAll ?m [] cs @ replaceAll ?m [] (40 # t)"
      using less [of cs] Cons by simp
    show ?thesis
    proof (cases "?m [] (c # cs)")
      case None
      then have "?m [] (c # cs @ 40 # t) = None" using ap by simp
      then show ?thesis using Cons None tl
        by (simp add: replaceAll_paren_seen [of lc idx "[c]"])
    next
      case (Some a)
      obtain rep rest where a: "a = (rep, rest)" by (cases a)
      have sh: "length rest < length (c # cs)"
        using Some a parenMatch_rest_shorter by blast
      have big: "?m [] (c # cs @ 40 # t) = Some (rep, rest @ 40 # t)"
        using ap Some a by simp
      have ih: "replaceAll ?m [] (rest @ 40 # t) = replaceAll ?m [] rest @ replaceAll ?m [] (40 # t)"
        using less [of rest] sh Cons by simp
      have l: "replaceAll ?m [] (c # cs @ 40 # t) = rep @ replaceAll ?m [] (rest @ 40 # t)"
        using big sh
          replaceAll_paren_seen [of lc idx
            "take (length (c # cs @ 40 # t) - length (rest @ 40 # t)) (c # cs @ 40 # t)"
            "rest @ 40 # t"]
        by simp
      have r: "replaceAll ?m [] (c # cs) = rep @ replaceAll ?m [] rest"
        using Some a sh
          replaceAll_paren_seen [of lc idx "take (length (c # cs) - length rest) (c # cs)" rest]
        by simp
      show ?thesis using Cons l r ih by simp
    qed
  qed
qed

lemma findSuffix_append:
  "(\<forall>k<length a. \<not> p (drop k a @ b)) \<Longrightarrow> findSuffix p (a @ b) = findSuffix p b"
proof (induction a)
  case Nil
  show ?case by simp
next
  case (Cons x xs)
  from Cons.prems have "\<not> p ((x # xs) @ b)" by (metis drop0 length_greater_0_conv list.distinct(1))
  moreover have "\<forall>k<length xs. \<not> p (drop k xs @ b)"
  proof (intro allI impI)
    fix k assume "k < length xs"
    then have "\<not> p (drop (Suc k) (x # xs) @ b)" using Cons.prems by (metis Suc_less_eq length_Cons)
    then show "\<not> p (drop k xs @ b)" by simp
  qed
  ultimately show ?case using Cons.IH by simp
qed

lemma stripSuffix_append:
  "(\<forall>k<length a. \<not> p (drop k a @ b)) \<Longrightarrow> stripSuffix p (a @ b) = a @ stripSuffix p b"
proof (induction a)
  case Nil
  show ?case by simp
next
  case (Cons x xs)
  from Cons.prems have "\<not> p ((x # xs) @ b)" by (metis drop0 length_greater_0_conv list.distinct(1))
  moreover have "\<forall>k<length xs. \<not> p (drop k xs @ b)"
  proof (intro allI impI)
    fix k assume "k < length xs"
    then have "\<not> p (drop (Suc k) (x # xs) @ b)" using Cons.prems by (metis Suc_less_eq length_Cons)
    then show "\<not> p (drop k xs @ b)" by simp
  qed
  ultimately show ?case using Cons.IH by simp
qed

lemma in_set_dropWhile: "x \<in> set xs \<Longrightarrow> \<not> P x \<Longrightarrow> x \<in> set (dropWhile P xs)"
  by (induction xs) auto

lemma yearSuffix_chars:
  assumes "yearSuffix v" and "c \<in> set v"
  shows "isDigit c \<or> isLower c \<or> isSpace c"
proof -
  from assms(2) have "c \<in> set (take 4 v) \<or> c \<in> set (drop 4 v)"
    by (metis Un_iff append_take_drop_id set_append)
  then show ?thesis
  proof
    assume "c \<in> set (take 4 v)"
    then show ?thesis using assms(1) by (auto simp: yearSuffix_def list_all_iff)
  next
    assume c: "c \<in> set (drop 4 v)"
    from assms(1) have "list_all isSpace (drop 4 v) \<or>
        (drop 4 v \<noteq> [] \<and> isLower (hd (drop 4 v)) \<and> list_all isSpace (tl (drop 4 v)))"
      by (simp add: yearSuffix_def Let_def)
    then show ?thesis
    proof
      assume "list_all isSpace (drop 4 v)"
      then show ?thesis using c by (auto simp: list_all_iff)
    next
      assume a: "drop 4 v \<noteq> [] \<and> isLower (hd (drop 4 v)) \<and> list_all isSpace (tl (drop 4 v))"
      then obtain h t where ht: "drop 4 v = h # t" by (cases "drop 4 v") auto
      then show ?thesis using a c by (auto simp: list_all_iff)
    qed
  qed
qed

lemma comma_not_class: "\<not> (isDigit 44 \<or> isLower 44 \<or> isSpace 44)"
  by (simp add: isDigit_def isLower_def isSpace_def)

lemma digit_not_space: "isDigit c \<Longrightarrow> \<not> isSpace c"
  by (auto simp: isDigit_def isSpace_def)

lemma space_notParen: "isSpace c \<Longrightarrow> notParen c"
  by (auto simp: isSpace_def notParen_def)

lemma digit_notParen: "isDigit c \<Longrightarrow> notParen c"
  by (auto simp: isDigit_def notParen_def)

lemma lower_notParen: "isLower c \<Longrightarrow> notParen c"
  by (auto simp: isLower_def notParen_def)

lemma year_suffix_ok:
  assumes "length year = 4" "list_all isDigit year" "suffix = [] \<or> (\<exists>c. suffix = [c] \<and> isLower c)"
  shows "yearSuffix (year @ suffix)"
  using assms by (auto simp: yearSuffix_def)

lemma dropWhile_spaces_year:
  assumes "list_all isSpace ws" "length year = 4" "list_all isDigit year"
  shows "dropWhile isSpace (ws @ year @ suffix) = year @ suffix"
proof -
  from assms(2) obtain d ds where y: "year = d # ds" by (cases year) auto
  with assms(3) have "\<not> isSpace d" by (simp add: digit_not_space)
  then show ?thesis using assms(1) y
    by (simp add: dropWhile_append list_all_iff)
qed

lemma group_findSuffix:
  assumes "list_all isSpace ws" "length year = 4" "list_all isDigit year"
    "suffix = [] \<or> (\<exists>c. suffix = [c] \<and> isLower c)"
  shows "findSuffix yearSuffix (authors @ 44 # ws @ year @ suffix) = Some (year @ suffix)"
proof -
  let ?a = "authors @ 44 # ws" and ?b = "year @ suffix"
  have b: "yearSuffix ?b" using assms by (simp add: year_suffix_ok)
  from assms(2) have bne: "?b \<noteq> []" by auto
  have no: "\<forall>k<length ?a. \<not> yearSuffix (drop k ?a @ ?b)"
  proof (intro allI impI)
    fix k assume k: "k < length ?a"
    show "\<not> yearSuffix (drop k ?a @ ?b)"
    proof (cases "k \<le> length authors")
      case True
      then have "44 \<in> set (drop k ?a @ ?b)" by simp
      then show ?thesis using yearSuffix_chars comma_not_class by blast
    next
      case False
      then have d: "drop k ?a = drop (k - Suc (length authors)) ws"
        by (simp add: drop_Cons')
      from k False have "k - Suc (length authors) < length ws" by simp
      then obtain h t where ht: "drop (k - Suc (length authors)) ws = h # t"
        by (cases "drop (k - Suc (length authors)) ws") auto
      then have "h \<in> set ws" by (metis in_set_dropD list.set_intros(1))
      then have "isSpace h" using assms(1) by (simp add: list_all_iff)
      then have "\<not> isDigit h" using digit_not_space by blast
      then show ?thesis using d ht by (simp add: yearSuffix_def)
    qed
  qed
  have "findSuffix yearSuffix (?a @ ?b) = findSuffix yearSuffix ?b"
    using no by (rule findSuffix_append)
  also have "\<dots> = Some ?b" using b bne by (cases ?b) auto
  finally show ?thesis by simp
qed

lemma group_stripSuffix:
  assumes "list_all isSpace ws" "length year = 4" "list_all isDigit year"
    "suffix = [] \<or> (\<exists>c. suffix = [c] \<and> isLower c)"
  shows "stripSuffix commaYearSuffix (authors @ 44 # ws @ year @ suffix) = authors"
proof -
  let ?b = "44 # ws @ year @ suffix"
  have b: "commaYearSuffix ?b"
    using assms by (simp add: commaYearSuffix_def dropWhile_spaces_year year_suffix_ok)
  have no: "\<forall>k<length authors. \<not> commaYearSuffix (drop k authors @ ?b)"
  proof (intro allI impI)
    fix k assume k: "k < length authors"
    then obtain h t where ht: "drop k authors = h # t" by (cases "drop k authors") auto
    have "44 \<in> set (dropWhile isSpace (t @ ?b))"
      by (rule in_set_dropWhile) (simp_all add: isSpace_def)
    then have "\<not> yearSuffix (dropWhile isSpace (t @ ?b))"
      using yearSuffix_chars comma_not_class by blast
    then show "\<not> commaYearSuffix (drop k authors @ ?b)"
      using ht by (simp add: commaYearSuffix_def)
  qed
  have "stripSuffix commaYearSuffix (authors @ ?b) = authors @ stripSuffix commaYearSuffix ?b"
    using no by (rule stripSuffix_append)
  then show ?thesis using b by simp
qed

lemma group_citationGroup:
  assumes "2 \<le> length authors" "length authors \<le> 80"
    "list_all isSpace ws" "length year = 4" "list_all isDigit year"
    "suffix = [] \<or> (\<exists>c. suffix = [c] \<and> isLower c)"
  shows "citationGroup (authors @ 44 # ws @ year @ suffix)"
proof -
  have "yearTail (44 # ws @ year @ suffix)"
    using assms by (auto simp: yearTail_def dropWhile_spaces_year nth_append)
  then have "yearTail (drop (length authors) (authors @ 44 # ws @ year @ suffix))" by simp
  moreover have "length authors \<in> {2..<81}" using assms by simp
  then have "length authors \<in> set [2..<81]" by (simp only: set_upt)
  ultimately show ?thesis unfolding citationGroup_def list_ex_iff by blast
qed

text \<open>
  Claim C5, as the code has it.  In any prose, a parenthesised run that consists of 2 to
  80 code units without parenthesis, a comma, white space, a four-digit year and at most
  one lower-case letter is rewritten by the parenthetical pass into a link that wraps the
  original parenthetical text when the surname extracted from the run (qualifiers "et
  al.", "and X", "& X" stripped, last word taken) and the year hit the index, and is left
  as it is when the lookup fails; the text before and after the run is processed on its
  own.
\<close>

theorem paren_citation_resolution:
  assumes "2 \<le> length authors" and "length authors \<le> 80" and "list_all notParen authors"
    and "list_all isSpace ws" and "length year = 4" and "list_all isDigit year"
    and "suffix = [] \<or> (\<exists>c. suffix = [c] \<and> isLower c)"
  shows "replaceAll (parenMatch toLowerCase idx) []
           (pre @ js ''('' @ (authors @ js '','' @ ws @ year @ suffix) @ js '')'' @ post) =
         replaceAll (parenMatch toLowerCase idx) [] pre @
         (case map_of idx (lookupKey toLowerCase (parenSurname (trim authors)) year) of
            Some e \<Rightarrow> js ''[('' @ (authors @ js '','' @ ws @ year @ suffix) @ js '')]('' @ uri e @ js '')''
          | None \<Rightarrow> js ''('' @ (authors @ js '','' @ ws @ year @ suffix) @ js '')'') @
         replaceAll (parenMatch toLowerCase idx) [] post"
proof -
  let ?inner = "authors @ 44 # ws @ year @ suffix"
  let ?m = "parenMatch toLowerCase idx"
  have "list_all notParen ws" using assms(4) by (auto simp: list_all_iff intro: space_notParen)
  moreover have "list_all notParen year" using assms(6) by (auto simp: list_all_iff intro: digit_notParen)
  moreover have "list_all notParen suffix" using assms(7) by (auto intro: lower_notParen)
  moreover have "notParen 44" by (simp add: notParen_def)
  ultimately have np: "list_all notParen ?inner" using assms(3) by simp
  have n41: "\<not> notParen 41" by (simp add: notParen_def)
  have tk: "takeWhile notParen (?inner @ 41 # post) = ?inner"
    using np n41 by (metis list_all_iff takeWhile_append2 takeWhile.simps append_Nil2)
  have dr: "dropWhile notParen (?inner @ 41 # post) = 41 # post"
    using np n41 by (metis list_all_iff dropWhile_append2 dropWhile.simps)
  have grp: "citationGroup ?inner" using assms by (simp add: group_citationGroup)
  have ym: "findSuffix yearSuffix ?inner = Some (year @ suffix)"
    using assms by (simp add: group_findSuffix)
  have ap: "stripSuffix commaYearSuffix ?inner = authors"
    using assms by (simp add: group_stripSuffix)
  have yr: "take 4 (year @ suffix) = year" using assms by simp
  have cb: "parenCallback toLowerCase idx ?inner =
      (case map_of idx (lookupKey toLowerCase (parenSurname (trim authors)) year) of
         Some e \<Rightarrow> js ''[('' @ ?inner @ js '')]('' @ uri e @ js '')''
       | None \<Rightarrow> js ''('' @ ?inner @ js '')'')"
    unfolding parenCallback_def ym ap using yr by (simp del: take_append)
  have mt: "?m [] (40 # ?inner @ 41 # post) = Some (parenCallback toLowerCase idx ?inner, post)"
    unfolding parenMatch_def using tk dr grp by simp
  have one: "replaceAll ?m [] (40 # ?inner @ 41 # post) =
      parenCallback toLowerCase idx ?inner @ replaceAll ?m [] post"
    using mt replaceAll_paren_seen [of toLowerCase idx
        "take (length (40 # ?inner @ 41 # post) - length post) (40 # ?inner @ 41 # post)" post]
    by simp
  have comp: "replaceAll ?m [] (pre @ 40 # ?inner @ 41 # post) =
      replaceAll ?m [] pre @ replaceAll ?m [] (40 # ?inner @ 41 # post)"
    by (rule replaceAll_paren_append_open)
  have i: "authors @ js '','' @ ws @ year @ suffix = ?inner" by (simp add: js_def)
  have o: "js ''('' @ ?inner @ js '')'' @ post = 40 # ?inner @ 41 # post" by (simp add: js_def)
  show ?thesis unfolding i o comp one cb by (rule refl)
qed

theorem paren_citation_resolution_witness:
  "replaceAll (parenMatch asciiLower (buildIndex asciiLower [exNicoleau])) []
       (js ''as shown (Nicoleau, 2014)'') =
     js ''as shown [(Nicoleau, 2014)](zotero://select/library/items/K1)''"
proof -
  let ?idx = "buildIndex asciiLower [exNicoleau]"
  have pre: "replaceAll (parenMatch asciiLower ?idx) [] (js ''as shown '') = js ''as shown ''"
    by (simp add: parenMatch_def char_defs)
  have sn: "parenSurname (trim (js ''Nicoleau'')) = js ''Nicoleau''"
    by (simp add: parenSurname_def trim_def lastWord_def splitWs_def etAlSuffix_def
        andSuffix_def ampSuffix_def ciEq_def spacesThenText_def char_defs Let_def)
  have lk: "map_of ?idx (lookupKey asciiLower (js ''Nicoleau'') (js ''2014'')) =
      Some (itemEntry (parentItem exNicoleau))"
    by (simp add: exNicoleau_index lookupKey_def asciiLower_def js_def)
  have u: "uri (itemEntry (parentItem exNicoleau)) = js ''zotero://select/library/items/K1''"
    by (simp add: itemEntry_def itemUri_def exNicoleau_def js_def)
  have h: "replaceAll (parenMatch asciiLower ?idx) []
       (js ''as shown '' @ js ''('' @ (js ''Nicoleau'' @ js '','' @ js '' '' @ js ''2014'' @ [])
          @ js '')'' @ []) =
     replaceAll (parenMatch asciiLower ?idx) [] (js ''as shown '') @
     (case map_of ?idx (lookupKey asciiLower (parenSurname (trim (js ''Nicoleau''))) (js ''2014'')) of
        Some e \<Rightarrow> js ''[('' @ (js ''Nicoleau'' @ js '','' @ js '' '' @ js ''2014'' @ []) @ js '')]('' @ uri e @ js '')''
      | None \<Rightarrow> js ''('' @ (js ''Nicoleau'' @ js '','' @ js '' '' @ js ''2014'' @ []) @ js '')'') @
     replaceAll (parenMatch asciiLower ?idx) [] []"
    by (rule paren_citation_resolution) (simp_all add: char_defs)
  have l: "js ''as shown '' @ js ''('' @ (js ''Nicoleau'' @ js '','' @ js '' '' @ js ''2014'' @ [])
          @ js '')'' @ [] = js ''as shown (Nicoleau, 2014)''"
    by (simp add: js_def)
  have r: "js ''as shown '' @
      (js ''[('' @ (js ''Nicoleau'' @ js '','' @ js '' '' @ js ''2014'' @ []) @ js '')]('' @
         js ''zotero://select/library/items/K1'' @ js '')'') @ [] =
      js ''as shown [(Nicoleau, 2014)](zotero://select/library/items/K1)''"
    by (simp add: js_def)
  show ?thesis
    using h unfolding l pre sn lk u option.case replaceAll.simps(1) r .
qed


text \<open>
  The claim as stated counts the 2 to 80 code units over the whole run.  The run
  \<open>(A, 2014)\<close> has seven, ends in a year, and its surname and year are in the index, yet
  it is not rewritten: the pattern wants at least two code units before the comma.
\<close>

theorem paren_citation_short_author_counterexample:
  "map_of (buildIndex asciiLower [exShortName]) (lookupKey asciiLower (js ''A'') (js ''2014''))
     = Some (itemEntry (parentItem exShortName))
   \<and> postProcessCitations asciiLower (js ''(A, 2014)'') [exShortName] = js ''(A, 2014)''"
proof -
  have a: "map_of (buildIndex asciiLower [exShortName]) (lookupKey asciiLower (js ''A'') (js ''2014''))
     = Some (itemEntry (parentItem exShortName))"
    by (simp add: exShortName_index lookupKey_def asciiLower_def js_def)
  have p1: "replaceAll (parenMatch asciiLower idx) [] (js ''(A, 2014)'') = js ''(A, 2014)''" for idx
    by (simp add: parenMatch_def citationGroup_def yearTail_def char_defs)
  have p2: "replaceAll (narrativeMatch asciiLower idx) [] (js ''(A, 2014)'') = js ''(A, 2014)''" for idx
    by (simp add: narrativeMatch_def char_defs)
  have p3: "replaceAll markerMatch [] (js ''(A, 2014)'') = js ''(A, 2014)''"
    by (simp add: markerMatch_def char_defs)
  have "postProcessCitations asciiLower (js ''(A, 2014)'') [exShortName] = js ''(A, 2014)''"
    unfolding postProcessCitations_def Let_def p1 p2 p3 by (simp add: exShortName_index)
  with a show ?thesis by simp
qed

section \<open>Cleaning the source-index markers\<close>

text \<open>
  Claim C9 says that the output of postProcessCitations never contains a marker
  \<open>[itemId:N]\<close>, the empty index included.  With an empty index line 969 returns the
  prose before the clean-up of line 1044 is reached, and the marker stays.
\<close>

theorem marker_survives_empty_index:
  "postProcessCitations toLowerCase (js ''see [itemId:12] here'') [] = js ''see [itemId:12] here''"
  by (simp add: postProcessCitations_def buildIndex_def)

text \<open>With an index, the clean-up is one pass of the pattern: it removes every marker of
  its input, and what is left around a removed marker may be a marker again.\<close>

lemma marker_cleanup_is_one_pass:
  "postProcessCitations asciiLower (js ''[itemId:[itemId:1]2]'') [exNicoleau] = js ''[itemId:2]''"
proof -
  have p1: "replaceAll (parenMatch asciiLower idx) [] (js ''[itemId:[itemId:1]2]'') =
      js ''[itemId:[itemId:1]2]''" for idx
    by (simp add: parenMatch_def char_defs)
  have p2: "replaceAll (narrativeMatch asciiLower idx) [] (js ''[itemId:[itemId:1]2]'') =
      js ''[itemId:[itemId:1]2]''" for idx
    by (simp add: narrativeMatch_def char_defs)
  have p3: "replaceAll markerMatch [] (js ''[itemId:[itemId:1]2]'') = js ''[itemId:2]''"
    by (simp add: markerMatch_def char_defs)
  show ?thesis
    unfolding postProcessCitations_def Let_def p1 p2 p3 by (simp add: exNicoleau_index)
qed

section \<open>Header deduplication in the aggregation\<close>

lemmas table_defs = splitTableHeaderAndRows_def splitLines_def trim_def startsWithPipe_def
  isSeparatorLine_def isSeparatorChar_def Let_def


lemma scanLines_closed:
  "scanLines st lines =
     \<lparr>headerLines = headerLines st @ (if headerDone st then [] else uptoSeparator (pipeLines lines)),
      dataLines = dataLines st @ (if headerDone st then pipeLines lines else afterSeparator (pipeLines lines)),
      nonTableLines = nonTableLines st @ freeLines lines,
      headerDone = (headerDone st \<or> list_ex isSeparatorLine (pipeLines lines))\<rparr>"
proof (induction lines arbitrary: st)
  case Nil
  show ?case by (simp add: pipeLines_def freeLines_def contentLines_def)
next
  case (Cons line lines)
  show ?case
  proof (cases "trim line = []")
    case True
    then show ?thesis using Cons.IH [of st]
      by (simp add: pipeLines_def freeLines_def contentLines_def)
  next
    case ne: False
    show ?thesis
    proof (cases "startsWithPipe (trim line)")
      case False
      then show ?thesis
        using ne Cons.IH [of "st\<lparr>nonTableLines := nonTableLines st @ [trim line]\<rparr>"]
        by (simp add: pipeLines_def freeLines_def contentLines_def)
    next
      case pipe: True
      show ?thesis
      proof (cases "headerDone st")
        case True
        then show ?thesis
          using ne pipe Cons.IH [of "st\<lparr>dataLines := dataLines st @ [trim line]\<rparr>"]
          by (simp add: pipeLines_def freeLines_def contentLines_def)
      next
        case False
        then show ?thesis
          using ne pipe
            Cons.IH [of "st\<lparr>headerLines := headerLines st @ [trim line],
                            headerDone := isSeparatorLine (trim line)\<rparr>"]
          by (simp add: pipeLines_def freeLines_def contentLines_def)
      qed
    qed
  qed
qed

lemma split_closed:
  "splitTableHeaderAndRows md =
     \<lparr>header = join [10] (uptoSeparator (pipeLines (splitLines md))),
      dataRows = join [10] (afterSeparator (pipeLines (splitLines md))),
      nonTableContent = join [10] (freeLines (splitLines md))\<rparr>"
  by (simp add: splitTableHeaderAndRows_def scanLines_closed Let_def)

lemma firstHeader_Cons:
  "firstHeader ((i, t) # rs) =
     (if header (splitTableHeaderAndRows t) \<noteq> [] then header (splitTableHeaderAndRows t)
      else firstHeader rs)"
  by (simp add: firstHeader_def)

lemma aggregateLoop_closed:
  "aggregateLoop m a rs =
     \<lparr>globalHeader = (if globalHeader a \<noteq> [] then globalHeader a else firstHeader rs),
      parts = parts a @ blocksOf m (index a) rs,
      index = index a + length rs\<rparr>"
proof (induction rs arbitrary: a)
  case Nil
  show ?case by (simp add: firstHeader_def blocksOf_def)
next
  case (Cons r rs)
  obtain i t where r: "r = (i, t)" by (cases r)
  show ?case
    unfolding r aggregateLoop.simps Let_def Cons.IH firstHeader_Cons
    by (simp add: blocksOf_def enumerate_simps)
qed

text \<open>
  Claim C4, as the code has it.  The header block of the first table (in the order of the
  results) that has one is the global header of the preamble; the blocks follow in the
  order of the results; the block of a table is its label, its free text and its data
  rows without its header block, and, when the table has no data rows, the table text as
  it is (its header lines included) instead of the rows.
\<close>

theorem aggregate_header_once:
  "aggregateTableContents tableResults itemPdfPairs =
     (if firstHeader tableResults \<noteq> []
      then headerIntro @ firstHeader tableResults @ blockSeparator else [])
     @ join blockSeparator (blocksOf (itemMapOf itemPdfPairs) 1 tableResults)
   \<and> header (splitTableHeaderAndRows t) = join [10] (uptoSeparator (pipeLines (splitLines t)))
   \<and> blockOf label t =
       (let free = join [10] (freeLines (splitLines t));
            rows = join [10] (afterSeparator (pipeLines (splitLines t)))
        in label @ (if free \<noteq> [] then [10] @ free else []) @ [10]
             @ (if rows \<noteq> [] then rows else t))"
proof -
  have "aggregateTableContents tableResults itemPdfPairs =
     (if firstHeader tableResults \<noteq> []
      then headerIntro @ firstHeader tableResults @ blockSeparator else [])
     @ join blockSeparator (blocksOf (itemMapOf itemPdfPairs) 1 tableResults)"
    by (simp add: aggregateTableContents_def aggregateLoop_closed Let_def)
  moreover have "header (splitTableHeaderAndRows t) =
      join [10] (uptoSeparator (pipeLines (splitLines t)))"
    by (simp add: split_closed)
  moreover have "blockOf label t =
       (let free = join [10] (freeLines (splitLines t));
            rows = join [10] (afterSeparator (pipeLines (splitLines t)))
        in label @ (if free \<noteq> [] then [10] @ free else []) @ [10]
             @ (if rows \<noteq> [] then rows else t))"
    by (simp add: blockOf_def split_closed Let_def)
  ultimately show ?thesis by blast
qed


lemma exTable_parts:
  "splitTableHeaderAndRows exTable =
     \<lparr>header = exHeaderOnly, dataRows = js ''|1|'', nonTableContent = []\<rparr>"
  by (simp add: exTable_def exHeaderOnly_def table_defs char_defs)

lemma exHeaderOnly_parts:
  "splitTableHeaderAndRows exHeaderOnly =
     \<lparr>header = exHeaderOnly, dataRows = [], nonTableContent = []\<rparr>"
  by (simp add: exHeaderOnly_def table_defs char_defs)


lemma exTableB_parts:
  "splitTableHeaderAndRows exTableB =
     \<lparr>header = exHeaderOnly, dataRows = js ''|2|'', nonTableContent = []\<rparr>"
  by (simp add: exTableB_def exHeaderOnly_def table_defs char_defs)

lemma decimal_1: "decimal (Suc 0) = [49]" and decimal_2: "decimal (Suc (Suc 0)) = [50]"
  by (simp_all add: decimal.simps)

lemma exHeaderOnly_ne: "exHeaderOnly \<noteq> []" and exRow_ne: "js ''|1|'' \<noteq> []"
  and exRowB_ne: "js ''|2|'' \<noteq> []"
  by (simp_all add: exHeaderOnly_def js_def)

theorem aggregate_header_once_witness:
  "aggregateTableContents [(7, exTable), (3, exTableB)] [] =
     headerIntro @ exHeaderOnly @ blockSeparator
     @ (js ''> **'' @ [25991, 29486] @ js '' '' @ [49] @ js ''**'' @ [10] @ js ''|1|'')
     @ blockSeparator
     @ (js ''> **'' @ [25991, 29486] @ js '' '' @ [50] @ js ''**'' @ [10] @ js ''|2|'')"
proof -
  have fh: "firstHeader [(7, exTable), (3, exTableB)] = exHeaderOnly"
    by (simp add: firstHeader_def exTable_parts exHeaderOnly_ne)
  have bl: "blocksOf (itemMapOf []) 1 [(7, exTable), (3, exTableB)] =
      [js ''> **'' @ [25991, 29486] @ js '' '' @ [49] @ js ''**'' @ [10] @ js ''|1|'',
       js ''> **'' @ [25991, 29486] @ js '' '' @ [50] @ js ''**'' @ [10] @ js ''|2|'']"
    by (simp add: blocksOf_def enumerate_simps blockOf_def blockLabel_def itemMapOf_def Let_def
        exTable_parts exTableB_parts decimal_1 decimal_2 exRow_ne exRowB_ne)
  show ?thesis
    using aggregate_header_once [of "[(7, exTable), (3, exTableB)]" "[]"]
    unfolding fh bl by (simp add: exHeaderOnly_ne)
qed

text \<open>
  As stated, the claim has the header block of every later table left out.  A later
  table that is a header without data rows is put out as it is, after the global header:
  the header block occurs twice.
\<close>

theorem aggregate_header_repeated_counterexample:
  "header (splitTableHeaderAndRows exTable) = exHeaderOnly
   \<and> header (splitTableHeaderAndRows exHeaderOnly) = exHeaderOnly
   \<and> occurrences exHeaderOnly
       (aggregateTableContents [(1, exTable), (2, exHeaderOnly)] []) = 2"
proof -
  have out: "aggregateTableContents [(1, exTable), (2, exHeaderOnly)] [] =
      headerIntro @ exHeaderOnly @ blockSeparator
      @ (js ''> **'' @ [25991, 29486] @ js '' '' @ [49] @ js ''**'' @ [10] @ js ''|1|'')
      @ blockSeparator
      @ (js ''> **'' @ [25991, 29486] @ js '' '' @ [50] @ js ''**'' @ [10] @ exHeaderOnly)"
    by (simp add: aggregateTableContents_def Let_def exTable_parts exHeaderOnly_parts blockOf_def
        blockLabel_def itemMapOf_def decimal_1 decimal_2 exHeaderOnly_ne exRow_ne)
  have "occurrences exHeaderOnly (aggregateTableContents [(1, exTable), (2, exHeaderOnly)] []) = 2"
    unfolding out
    by (simp add: headerIntro_def blockSeparator_def exHeaderOnly_def js_def)
  then show ?thesis by (simp add: exTable_parts exHeaderOnly_parts)
qed

section \<open>The round trip through the table cache\<close>

lemma entity_texts:
  "js ''&amp;'' = [38, 97, 109, 112, 59]" "js ''&lt;'' = [38, 108, 116, 59]"
  "js ''&gt;'' = [38, 103, 116, 59]" "js ''&quot;'' = [38, 113, 117, 111, 116, 59]"
  "js ''&'' = [38]" "js ''<'' = [60]" "js ''>'' = [62]"
  by (simp_all add: js_def)

lemma replaceAll_seen:
  assumes "\<And>seen s. m seen s = m [] s"
  shows "replaceAll m seen s = replaceAll m [] s"
proof (induction "length s" arbitrary: s seen rule: less_induct)
  case less
  show ?case
  proof (cases s)
    case Nil
    then show ?thesis by simp
  next
    case (Cons c cs)
    have m: "m seen (c # cs) = m [] (c # cs)" by (rule assms)
    have tl: "\<And>sn. replaceAll m sn cs = replaceAll m [] cs"
      using less [of cs] Cons by simp
    show ?thesis
    proof (cases "m [] (c # cs)")
      case None
      then show ?thesis using Cons m tl [of "seen @ [c]"] tl [of "[c]"] by simp
    next
      case (Some a)
      obtain rep rest where a: "a = (rep, rest)" by (cases a)
      show ?thesis
      proof (cases "length rest < length (c # cs)")
        case True
        then have r: "\<And>sn. replaceAll m sn rest = replaceAll m [] rest"
          using less [of rest] Cons by simp
        have "replaceAll m seen (c # cs) =
            rep @ replaceAll m (seen @ take (length (c # cs) - length rest) (c # cs)) rest"
          using m Some a True by simp
        moreover have "replaceAll m [] (c # cs) =
            rep @ replaceAll m ([] @ take (length (c # cs) - length rest) (c # cs)) rest"
          using Some a True by simp
        ultimately show ?thesis using Cons r by metis
      next
        case False
        then show ?thesis using Cons m Some a tl [of "seen @ [c]"] tl [of "[c]"] by simp
      qed
    qed
  qed
qed

lemma replaceLit_Cons:
  assumes "lit \<noteq> []"
  shows "replaceAll (literalMatch lit rep) [] (c # cs) =
     (if take (length lit) (c # cs) = lit
      then rep @ replaceAll (literalMatch lit rep) [] (drop (length lit) (c # cs))
      else c # replaceAll (literalMatch lit rep) [] cs)"
proof -
  have ind: "\<And>seen s. replaceAll (literalMatch lit rep) seen s = replaceAll (literalMatch lit rep) [] s"
    by (rule replaceAll_seen) (simp add: literalMatch_def)
  show ?thesis
  proof (cases "take (length lit) (c # cs) = lit")
    case True
    from assms have "0 < length lit" by simp
    then have sh: "length (drop (length lit) (c # cs)) < length (c # cs)" by simp
    have "replaceAll (literalMatch lit rep) [] (c # cs) =
      rep @ replaceAll (literalMatch lit rep)
         ([] @ take (length (c # cs) - length (drop (length lit) (c # cs))) (c # cs))
         (drop (length lit) (c # cs))"
      using True sh by (simp add: literalMatch_def del: drop_Suc_Cons take_Suc_Cons length_drop)
    then show ?thesis using True ind by metis
  next
    case False
    then show ?thesis using ind [of "[c]" cs] by (simp add: literalMatch_def)
  qed
qed

lemma replaceLit_Nil: "replaceAll (literalMatch lit rep) [] [] = []"
  by simp

lemma replaceLit_char:
  "replaceAll (literalMatch [x] rep) [] s = concat (map (\<lambda>c. if c = x then rep else [c]) s)"
  by (induction s) (simp_all add: replaceLit_Cons del: replaceAll.simps(2))

lemma concat_map_concat_map:
  "concat (map f (concat (map g t))) = concat (map (\<lambda>c. concat (map f (g c))) t)"
  by (induction t) simp_all

lemma escapeHtml_concat: "escapeHtml t = concat (map escChar t)"
proof -
  have "escapeHtml t =
      concat (map (\<lambda>c. if c = 62 then [38, 103, 116, 59] else [c])
        (concat (map (\<lambda>c. if c = 60 then [38, 108, 116, 59] else [c])
          (concat (map (\<lambda>c. if c = 38 then [38, 97, 109, 112, 59] else [c]) t)))))"
    by (simp add: escapeHtml_def entity_texts replaceLit_char del: replaceAll.simps(2))
  also have "\<dots> = concat (map escChar t)"
    unfolding concat_map_concat_map
    by (rule arg_cong [where f = concat], rule map_cong, rule refl)
       (simp add: escChar_def)
  finally show ?thesis .
qed

lemma escChar_noLt: "60 \<notin> set (escChar c)"
  by (simp add: escChar_def)

lemma escapeHtml_noLt: "60 \<notin> set (escapeHtml t)"
  by (simp add: escapeHtml_concat escChar_noLt)

lemma escapeHtml_empty: "escapeHtml t = [] \<longleftrightarrow> t = []"
  by (cases t) (simp_all add: escapeHtml_concat escChar_def)

lemma unescape_amp:
  "replaceAll (literalMatch [38, 97, 109, 112, 59] [38]) [] (concat (map escChar t)) =
     concat (map escLtGt t)"
proof (induction t)
  case Nil
  show ?case by simp
next
  case (Cons c t)
  note step = replaceLit_Cons [of "[38, 97, 109, 112, 59]" "[38]"]
  show ?case
  proof (cases "c = 38 \<or> c = 60 \<or> c = 62")
    case True
    then show ?thesis using Cons.IH
      by (auto simp add: step escChar_def escLtGt_def simp del: replaceAll.simps(2))
  next
    case False
    then show ?thesis using Cons.IH
      by (simp add: step escChar_def escLtGt_def del: replaceAll.simps(2))
  qed
qed

lemma contains_Cons_not:
  "\<not> contains lit (c # cs) \<Longrightarrow> take (length lit) (c # cs) \<noteq> lit \<and> \<not> contains lit cs"
  by simp

text \<open>A text that reads \<open>p\<close> after encoding already read \<open>p\<close> before, when \<open>p\<close> has no
  ampersand: an encoded code unit is itself or starts with an ampersand.\<close>

lemma encoded_prefix:
  assumes "\<And>a. f a = [a] \<or> (\<exists>r. f a = 38 # r)" and "38 \<notin> set p"
    and "take (length p) (concat (map f t)) = p"
  shows "take (length p) t = p"
  using assms(2,3)
proof (induction p arbitrary: t)
  case Nil
  show ?case by simp
next
  case (Cons x p)
  show ?case
  proof (cases t)
    case Nil
    then show ?thesis using Cons.prems by simp
  next
    case (Cons a t')
    from assms(1) [of a] show ?thesis
    proof
      assume fa: "f a = [a]"
      with Cons.prems Cons have "a = x" and "take (length p) (concat (map f t')) = p" by simp_all
      moreover from Cons.prems have "38 \<notin> set p" by simp
      ultimately show ?thesis using Cons.IH [of t'] Cons by simp
    next
      assume "\<exists>r. f a = 38 # r"
      then obtain r where "f a = 38 # r" by blast
      with Cons.prems Cons have "x = 38" by simp
      with Cons.prems show ?thesis by simp
    qed
  qed
qed

lemma no_match_plain:
  assumes "\<And>a. f a = [a] \<or> (\<exists>r. f a = 38 # r)" and "38 \<notin> set tail"
    and "take (length (38 # tail)) (c # t) \<noteq> 38 # tail"
  shows "take (length (38 # tail)) (c # concat (map f t)) \<noteq> 38 # tail"
proof
  assume "take (length (38 # tail)) (c # concat (map f t)) = 38 # tail"
  then have c: "c = 38" and "take (length tail) (concat (map f t)) = tail" by simp_all
  then have "take (length tail) t = tail"
    using encoded_prefix [of f tail t] assms(1,2) by blast
  with c assms(3) show False by simp
qed

lemma escLtGt_shape: "escLtGt a = [a] \<or> (\<exists>r. escLtGt a = 38 # r)"
  by (simp add: escLtGt_def)

lemma escGt_shape: "escGt a = [a] \<or> (\<exists>r. escGt a = 38 # r)"
  by (simp add: escGt_def)

lemma unescape_lt:
  assumes "\<not> contains [38, 108, 116, 59] t"
  shows "replaceAll (literalMatch [38, 108, 116, 59] [60]) [] (concat (map escLtGt t)) =
     concat (map escGt t)"
  using assms
proof (induction t)
  case Nil
  show ?case by simp
next
  case (Cons c t)
  note step = replaceLit_Cons [of "[38, 108, 116, 59]" "[60]"]
  from Cons.prems have here: "take (length [38, 108, 116, 59::nat]) (c # t) \<noteq> [38, 108, 116, 59]"
    and rest: "\<not> contains [38, 108, 116, 59] t"
    by (simp_all only: contains.simps de_Morgan_disj not_False_eq_True)
  have ih: "replaceAll (literalMatch [38, 108, 116, 59] [60]) [] (concat (map escLtGt t)) =
     concat (map escGt t)" using Cons.IH rest by simp
  show ?case
  proof (cases "c = 60 \<or> c = 62")
    case True
    then show ?thesis
    proof
      assume c: "c = 60"
      have e1: "concat (map escLtGt (c # t)) = [38, 108, 116, 59] @ concat (map escLtGt t)"
        using c by (simp add: escLtGt_def)
      have e2: "concat (map escGt (c # t)) = 60 # concat (map escGt t)"
        using c by (simp add: escGt_def)
      show ?thesis unfolding e1 e2 using ih by (simp add: step del: replaceAll.simps(2))
    next
      assume c: "c = 62"
      have e1: "concat (map escLtGt (c # t)) = [38, 103, 116, 59] @ concat (map escLtGt t)"
        using c by (simp add: escLtGt_def)
      have e2: "concat (map escGt (c # t)) = [38, 103, 116, 59] @ concat (map escGt t)"
        using c by (simp add: escGt_def)
      show ?thesis unfolding e1 e2 using ih by (simp add: step del: replaceAll.simps(2))
    qed
  next
    case False
    have no: "take (length [38, 108, 116, 59::nat]) (c # concat (map escLtGt t)) \<noteq> [38, 108, 116, 59]"
      by (rule no_match_plain [OF escLtGt_shape _ here]) simp
    have e1: "concat (map escLtGt (c # t)) = c # concat (map escLtGt t)"
      using False by (simp add: escLtGt_def)
    have e2: "concat (map escGt (c # t)) = c # concat (map escGt t)"
      using False by (simp add: escGt_def)
    have st: "replaceAll (literalMatch [38, 108, 116, 59] [60]) [] (c # concat (map escLtGt t)) =
        c # replaceAll (literalMatch [38, 108, 116, 59] [60]) [] (concat (map escLtGt t))"
      using no by (simp only: step if_False list.distinct not_False_eq_True)
    show ?thesis unfolding e1 e2 st ih by (rule refl)
  qed
qed

lemma unescape_gt:
  assumes "\<not> contains [38, 103, 116, 59] t"
  shows "replaceAll (literalMatch [38, 103, 116, 59] [62]) [] (concat (map escGt t)) = t"
  using assms
proof (induction t)
  case Nil
  show ?case by simp
next
  case (Cons c t)
  note step = replaceLit_Cons [of "[38, 103, 116, 59]" "[62]"]
  from Cons.prems have here: "take (length [38, 103, 116, 59::nat]) (c # t) \<noteq> [38, 103, 116, 59]"
    and rest: "\<not> contains [38, 103, 116, 59] t"
    by (simp_all only: contains.simps de_Morgan_disj not_False_eq_True)
  have ih: "replaceAll (literalMatch [38, 103, 116, 59] [62]) [] (concat (map escGt t)) = t"
    using Cons.IH rest by simp
  show ?case
  proof (cases "c = 62")
    case True
    have e1: "concat (map escGt (c # t)) = [38, 103, 116, 59] @ concat (map escGt t)"
      using True by (simp add: escGt_def)
    show ?thesis unfolding e1 using ih True by (simp add: step del: replaceAll.simps(2))
  next
    case False
    have no: "take (length [38, 103, 116, 59::nat]) (c # concat (map escGt t)) \<noteq> [38, 103, 116, 59]"
      by (rule no_match_plain [OF escGt_shape _ here]) simp
    have e1: "concat (map escGt (c # t)) = c # concat (map escGt t)"
      using False by (simp add: escGt_def)
    have st: "replaceAll (literalMatch [38, 103, 116, 59] [62]) [] (c # concat (map escGt t)) =
        c # replaceAll (literalMatch [38, 103, 116, 59] [62]) [] (concat (map escGt t))"
      using no by (simp only: step if_False list.distinct not_False_eq_True)
    show ?thesis unfolding e1 st ih by (rule refl)
  qed
qed

lemma replaceLit_absent:
  assumes "lit \<noteq> []" and "\<not> contains lit s"
  shows "replaceAll (literalMatch lit rep) [] s = s"
  using assms(2)
  by (induction s) (simp_all add: replaceLit_Cons [OF assms(1)] del: replaceAll.simps(2))

lemma unescape_escape:
  assumes "\<not> contains (js ''&lt;'') t" and "\<not> contains (js ''&gt;'') t"
    and "\<not> contains (js ''&quot;'') t"
  shows "unescapeHtml (escapeHtml t) = t"
proof -
  have "unescapeHtml (escapeHtml t) =
      replaceAll (literalMatch [38, 113, 117, 111, 116, 59] [34]) []
       (replaceAll (literalMatch [38, 103, 116, 59] [62]) []
         (replaceAll (literalMatch [38, 108, 116, 59] [60]) []
           (replaceAll (literalMatch [38, 97, 109, 112, 59] [38]) [] (concat (map escChar t)))))"
    by (simp only: unescapeHtml_def entity_texts escapeHtml_concat)
  also have "\<dots> = replaceAll (literalMatch [38, 113, 117, 111, 116, 59] [34]) [] t"
    by (simp only: unescape_amp unescape_lt [OF assms(1) [unfolded entity_texts]]
          unescape_gt [OF assms(2) [unfolded entity_texts]])
  also have "\<dots> = t"
    by (rule replaceLit_absent) (simp_all add: assms(3) [unfolded entity_texts])
  finally show ?thesis .
qed

lemma contains_iff: "contains lit s \<longleftrightarrow> (\<exists>a b. s = a @ lit @ b)"
proof (induction s)
  case Nil
  show ?case by auto
next
  case (Cons c s)
  show ?case
  proof
    assume "contains lit (c # s)"
    then consider "take (length lit) (c # s) = lit" | "contains lit s" by auto
    then show "\<exists>a b. c # s = a @ lit @ b"
    proof cases
      case 1
      then have "c # s = [] @ lit @ drop (length lit) (c # s)"
        by (metis append_Nil append_take_drop_id)
      then show ?thesis by blast
    next
      case 2
      then obtain a b where "s = a @ lit @ b" using Cons.IH by blast
      then have "c # s = (c # a) @ lit @ b" by simp
      then show ?thesis by blast
    qed
  next
    assume "\<exists>a b. c # s = a @ lit @ b"
    then obtain a b where ab: "c # s = a @ lit @ b" by blast
    show "contains lit (c # s)"
    proof (cases a)
      case Nil
      then have "take (length lit) (c # s) = lit" using ab by simp
      then show ?thesis by simp
    next
      case (Cons x a')
      then have "s = a' @ lit @ b" using ab by simp
      then have "contains lit s" using Cons.IH by blast
      then show ?thesis by simp
    qed
  qed
qed

lemma contains_part: "contains lit m \<Longrightarrow> contains lit (a @ m @ b)"
proof -
  assume "contains lit m"
  then obtain x y where "m = x @ lit @ y" using contains_iff by blast
  then have "a @ m @ b = (a @ x) @ lit @ (y @ b)" by simp
  then show ?thesis using contains_iff by blast
qed

lemma contains_drop: "contains lit (drop k s) \<Longrightarrow> contains lit s"
  using contains_part [of lit "drop k s" "take k s" "[]"] by simp

lemma contains_takeWhile: "contains lit (takeWhile P s) \<Longrightarrow> contains lit s"
  using contains_part [of lit "takeWhile P s" "[]" "dropWhile P s"] by simp

lemma untilClose_plain:
  "60 \<notin> set e \<Longrightarrow> untilClose (e @ js ''</div>'' @ rest) = Some e"
proof (induction e)
  case Nil
  show ?case by (simp add: js_def)
next
  case (Cons c e)
  then have "c \<noteq> 60" and "untilClose (e @ js ''</div>'' @ rest) = Some e" by simp_all
  then show ?case by (simp add: js_def)
qed

lemma rawAt_hidden: "rawAt (hiddenHtml t @ rest) = untilClose (escapeHtml t @ js ''</div>'' @ rest)"
  by (simp add: rawAt_def hiddenHtml_def js_def)

lemma rawMatch_append:
  "(\<forall>k<length a. rawAt (drop k a @ b) = None) \<Longrightarrow> rawMatch (a @ b) = rawMatch b"
proof (induction a)
  case Nil
  show ?case by simp
next
  case (Cons x xs)
  from Cons.prems have "rawAt ((x # xs) @ b) = None"
    by (metis drop0 length_greater_0_conv list.distinct(1))
  moreover have "\<forall>k<length xs. rawAt (drop k xs @ b) = None"
  proof (intro allI impI)
    fix k assume "k < length xs"
    then have "rawAt (drop (Suc k) (x # xs) @ b) = None"
      using Cons.prems by (metis Suc_less_eq length_Cons)
    then show "rawAt (drop k xs @ b) = None" by simp
  qed
  ultimately show ?case using Cons.IH by simp
qed

lemma takeWhile_append_hit:
  "x \<in> set a \<Longrightarrow> \<not> P x \<Longrightarrow> takeWhile P (a @ b) = takeWhile P a"
  by (induction a) auto

lemma dropWhile_append_hit:
  "x \<in> set a \<Longrightarrow> \<not> P x \<Longrightarrow> dropWhile P (a @ b) = dropWhile P a @ b"
  by (induction a) auto

text \<open>No earlier element of the note matches the pattern when the visible part does not
  contain the attribute name.\<close>

lemma rawAt_visible:
  assumes "\<not> contains (js ''data-ai-table-raw'') (v @ js ''</div>'')"
    and "k < length (v @ js ''</div>'')"
  shows "rawAt (drop k (v @ js ''</div>'') @ h) = None"
proof (cases "k + 5 \<le> length (v @ js ''</div>'')")
  case True
  define vis where "vis = v @ js ''</div>''"
  have len: "k + 5 \<le> length vis" using True by (simp add: vis_def)
  have d4: "drop 4 (drop k vis @ h) = drop (k + 4) vis @ h"
    using len by (simp add: add.commute)
  have ne: "drop (k + 4) vis \<noteq> []" using len by simp
  have "last (drop (k + 4) vis) = last vis" using len by (simp add: last_drop)
  also have "\<dots> = 62" by (simp add: vis_def js_def)
  finally have "62 \<in> set (drop (k + 4) vis)" using ne last_in_set by metis
  then have tw: "takeWhile (\<lambda>c. c \<noteq> 62) (drop (k + 4) vis @ h) =
      takeWhile (\<lambda>c. c \<noteq> 62) (drop (k + 4) vis)"
    by (rule takeWhile_append_hit) simp
  have "\<not> contains (js ''data-ai-table-raw'') (takeWhile (\<lambda>c. c \<noteq> 62) (drop (k + 4) vis))"
    using assms(1) contains_takeWhile contains_drop unfolding vis_def by blast
  then have "rawAt (drop k vis @ h) = None"
    unfolding rawAt_def d4 tw Let_def by simp
  then show ?thesis by (simp only: vis_def)
next
  case False
  obtain j where j: "k = length v + j" and j2: "2 \<le> j" and j6: "j < 6"
  proof -
    from False assms(2) have "length v + 2 \<le> k" "k < length v + 6" by (simp_all add: js_def)
    then have "k = length v + (k - length v)" "2 \<le> k - length v" "k - length v < 6" by simp_all
    then show ?thesis using that by blast
  qed
  have u: "drop k (v @ js ''</div>'') = drop j (js ''</div>'')" using j by simp
  from j2 j6 consider "j = 2" | "j = 3" | "j = 4" | "j = 5" by arith
  then have "rawAt (drop j (js ''</div>'') @ h) = None"
    by cases (simp_all add: rawAt_def js_def)
  then show ?thesis unfolding u .
qed

lemma rawMatch_noteHtml:
  assumes "\<not> contains (js ''data-ai-table-raw'') (visibleHtml it rendered)"
  shows "rawMatch (visibleHtml it rendered @ hiddenHtml t) = Some (escapeHtml t)"
proof -
  obtain v where v: "visibleHtml it rendered = v @ js ''</div>''"
    by (simp add: visibleHtml_def)
  have "rawMatch (visibleHtml it rendered @ hiddenHtml t) = rawMatch (hiddenHtml t)"
    unfolding v by (rule rawMatch_append) (use assms v rawAt_visible in auto)
  moreover have "rawAt (hiddenHtml t) = Some (escapeHtml t)"
    using rawAt_hidden [of t "[]"] untilClose_plain [of "escapeHtml t" "[]"] escapeHtml_noLt
    by simp
  moreover obtain c r where "hiddenHtml t = c # r" by (simp add: hiddenHtml_def js_def)
  ultimately show ?thesis by simp
qed

lemma findInNotes_none: "noTableNote ns \<Longrightarrow> findInNotes ns = None"
  by (induction ns rule: findInNotes.induct) (simp_all add: noTableNote_def)

lemma findInNotes_inserted:
  assumes "noTableNote ns" and "hasTableTag n"
  shows "findInNotes (insertAt k (Some n) ns) = tableTextOf (noteHtml n)"
proof -
  have *: "noTableNote a \<Longrightarrow> findInNotes (a @ Some n # b) = tableTextOf (noteHtml n)" for a b
    using assms(2) by (induction a rule: findInNotes.induct) (simp_all add: noTableNote_def)
  have "noTableNote (take k ns)"
    using assms(1) by (auto simp: noTableNote_def list_all_iff dest: in_set_takeD)
  then show ?thesis by (simp add: insertAt_def *)
qed


text \<open>
  Claim C1, as the code has it.  For an item without a table note, a markdown text that
  is not empty, has no white space at either end and does not contain the entity texts
  \<open>&lt;\<close>, \<open>&gt;\<close>, \<open>&quot;\<close> (it may contain \<open>&\<close>, \<open><\<close>, \<open>>\<close> and \<open>&amp;\<close>) is read
  back by findTableNote exactly as saveTableNote stored it, provided the visible part of
  the note (heading and rendered table) does not contain the attribute name
  \<open>data-ai-table-raw\<close>.
\<close>

theorem cache_round_trip:
  assumes "noTableNote (lib (itemID it))"
    and "t \<noteq> []" and "trim t = t"
    and "\<not> contains (js ''&lt;'') t" and "\<not> contains (js ''&gt;'') t"
    and "\<not> contains (js ''&quot;'') t"
    and "\<not> contains (js ''data-ai-table-raw'')
           (visibleHtml it (displayHtml (markedParse t)))"
  shows "findTableNote (snd (saveTableNote markedParse position lib it t)) it = Some t"
proof -
  let ?n = "newTableNote markedParse it t"
  have miss: "findTableNote lib it = None"
    using assms(1) by (simp add: findTableNote_def findInNotes_none)
  have tag: "hasTableTag ?n" by (simp add: newTableNote_def hasTableTag_def)
  have raw: "rawMatch (noteHtml ?n) = Some (escapeHtml t)"
    using assms(7) by (simp add: newTableNote_def rawMatch_noteHtml)
  have ne: "escapeHtml t \<noteq> []" using assms(2) by (simp add: escapeHtml_empty)
  have un: "unescapeHtml (escapeHtml t) = t"
    using assms(4-6) by (rule unescape_escape)
  have got: "tableTextOf (noteHtml ?n) = Some t"
    unfolding tableTextOf_def raw using ne un assms(2,3) by simp
  have "snd (saveTableNote markedParse position lib it t) =
      lib(itemID it := insertAt position (Some ?n) (lib (itemID it)))"
    using miss by (simp add: saveTableNote_def Let_def)
  then show ?thesis
    using findInNotes_inserted [OF assms(1) tag] got by (simp add: findTableNote_def)
qed

lemma exDisplay: "displayHtml (exParse md) = js ''<p>t</p>''"
  by (simp add: displayHtml_def exParse_def styleMatch_def blockMathMatch_def
      inlineMathMatch_def char_defs)

lemma exVisible_clean:
  "\<not> contains (js ''data-ai-table-raw'') (visibleHtml exItem (js ''<p>t</p>''))"
  by (simp add: visibleHtml_def itemTitle_def exItem_def js_def)


theorem cache_round_trip_witness:
  "findTableNote (snd (saveTableNote exParse 0 exLibrary exItem (js ''| a & b | <x> |''))) exItem
     = Some (js ''| a & b | <x> |'')"
proof (rule cache_round_trip)
  show "noTableNote (exLibrary (itemID exItem))" by (simp add: noTableNote_def exLibrary_def)
  show "js ''| a & b | <x> |'' \<noteq> []" by (simp add: js_def)
  show "trim (js ''| a & b | <x> |'') = js ''| a & b | <x> |''"
    by (simp add: trim_def char_defs)
  show "\<not> contains (js ''&lt;'') (js ''| a & b | <x> |'')" by (simp add: js_def)
  show "\<not> contains (js ''&gt;'') (js ''| a & b | <x> |'')" by (simp add: js_def)
  show "\<not> contains (js ''&quot;'') (js ''| a & b | <x> |'')" by (simp add: js_def)
  show "\<not> contains (js ''data-ai-table-raw'')
           (visibleHtml exItem (displayHtml (exParse (js ''| a & b | <x> |''))))"
    by (simp only: exDisplay exVisible_clean not_False_eq_True)
qed


lemma exNote_group:
  "rawMatch (noteHtml (newTableNote exParse exItem t)) = Some (escapeHtml t)"
  unfolding newTableNote_def exDisplay using exVisible_clean
  by (simp add: rawMatch_noteHtml)

lemma exSaved:
  "snd (saveTableNote exParse 0 exLibrary exItem t) =
     exLibrary(7 := [Some (newTableNote exParse exItem t)])"
  by (simp add: saveTableNote_def findTableNote_def exLibrary_def exItem_def insertAt_def Let_def)

lemma newTableNote_tag: "hasTableTag (newTableNote mp it t)"
  by (simp add: newTableNote_def hasTableTag_def)


text \<open>
  The claim as stated has every text read back exactly.  findTableNote trims what it
  reads (line 254): a text with white space around it comes back without it.
\<close>

theorem cache_round_trip_trim_counterexample:
  "findTableNote (snd (saveTableNote exParse 0 exLibrary exItem (js '' |a| ''))) exItem
     = Some (js ''|a|'')
   \<and> js ''|a|'' \<noteq> js '' |a| ''"
proof -
  have e: "escapeHtml (js '' |a| '') = js '' |a| ''"
    by (simp add: escapeHtml_concat escChar_def js_def)
  have u: "unescapeHtml (js '' |a| '') = js '' |a| ''"
    using unescape_escape [of "js '' |a| ''"] e by (simp add: js_def)
  have t: "trim (js '' |a| '') = js ''|a|''" by (simp add: trim_def char_defs)
  have ne: "js '' |a| '' \<noteq> []" "js ''|a|'' \<noteq> []" by (simp_all add: js_def)
  have "tableTextOf (noteHtml (newTableNote exParse exItem (js '' |a| ''))) = Some (js ''|a|'')"
    by (simp add: tableTextOf_def exNote_group e u t ne)
  moreover have "itemID exItem = 7" by (simp add: exItem_def)
  moreover have "js ''|a|'' \<noteq> js '' |a| ''" by (simp add: js_def)
  ultimately show ?thesis
    by (simp add: exSaved findTableNote_def newTableNote_tag)
qed

section \<open>The first table note wins\<close>

lemma findInNotes_first:
  "findInNotes ns = Some x \<Longrightarrow> \<exists>n. firstTableNote ns = Some n \<and> hasTableTag n \<and> Some n \<in> set ns"
  by (induction ns rule: findInNotes.induct) (auto split: if_splits)


text \<open>
  What saveTableNote keeps when findTableNote finds a text for the item: the call changes
  nothing in the library and returns the first note that carries the tag, and
  findTableNote finds the same text afterwards.
\<close>

lemma existing_table_note_kept:
  assumes "findTableNote lib it = Some x"
  shows "snd (saveTableNote markedParse position lib it t) = lib
    \<and> firstTableNote (lib (itemID it)) = Some (fst (saveTableNote markedParse position lib it t))
    \<and> findTableNote (snd (saveTableNote markedParse position lib it t)) it = Some x"
proof -
  from assms obtain n where n: "firstTableNote (lib (itemID it)) = Some n"
    using findInNotes_first by (auto simp: findTableNote_def)
  then have "saveTableNote markedParse position lib it t = (n, lib)"
    using assms by (simp add: saveTableNote_def Let_def)
  then show ?thesis using n assms by simp
qed


lemma exNote_text:
  assumes "unescapeHtml (escapeHtml t) = t" and "trim t = t" and "t \<noteq> []"
  shows "tableTextOf (noteHtml (newTableNote exParse exItem t)) = Some t"
  using assms by (simp add: tableTextOf_def exNote_group escapeHtml_empty)

lemma exItem_id: "itemID exItem = 7"
  by (simp add: exItem_def)


lemma existing_table_note_kept_example:
  "(let lib1 = snd (saveTableNote exParse 0 exLibrary exItem (js ''|a|''));
        second = saveTableNote exParse 0 lib1 exItem (js ''|b|'')
    in snd second = lib1
       \<and> fst second = newTableNote exParse exItem (js ''|a|'')
       \<and> findTableNote (snd second) exItem = Some (js ''|a|''))"
proof -
  let ?lib1 = "snd (saveTableNote exParse 0 exLibrary exItem (js ''|a|''))"
  have e: "escapeHtml (js ''|a|'') = js ''|a|''"
    by (simp add: escapeHtml_concat escChar_def js_def)
  have u: "unescapeHtml (escapeHtml (js ''|a|'')) = js ''|a|''"
    by (rule unescape_escape) (simp_all add: js_def)
  have "tableTextOf (noteHtml (newTableNote exParse exItem (js ''|a|''))) = Some (js ''|a|'')"
    by (rule exNote_text [OF u]) (simp_all add: trim_def char_defs)
  then have f: "findTableNote ?lib1 exItem = Some (js ''|a|'')"
    by (simp add: exSaved findTableNote_def exItem_id newTableNote_tag)
  have first: "firstTableNote (?lib1 (itemID exItem)) = Some (newTableNote exParse exItem (js ''|a|''))"
    by (simp add: exSaved exItem_id newTableNote_tag)
  note w = existing_table_note_kept [OF f, of exParse 0 "js ''|b|''"]
  have a: "snd (saveTableNote exParse 0 ?lib1 exItem (js ''|b|'')) = ?lib1"
    using w by (rule conjunct1)
  have "firstTableNote (?lib1 (itemID exItem)) =
      Some (fst (saveTableNote exParse 0 ?lib1 exItem (js ''|b|'')))"
    using w by (rule conjunct2 [THEN conjunct1])
  then have b: "fst (saveTableNote exParse 0 ?lib1 exItem (js ''|b|'')) =
      newTableNote exParse exItem (js ''|a|'')"
    unfolding first by simp
  have c: "findTableNote (snd (saveTableNote exParse 0 ?lib1 exItem (js ''|b|''))) exItem =
      Some (js ''|a|'')"
    using w by (rule conjunct2 [THEN conjunct2])
  show ?thesis unfolding Let_def using a b c by blast
qed


text \<open>
  Claim C2 says that a second saveTableNote with another text never overwrites the first
  record: it returns the record that exists, and findTableNote goes on returning the
  first text.  The check of line 283 is on the text that findTableNote reads back, not
  on the note: a first text of white space only is stored, is read back as no text
  (line 255), and the second call creates a second note with the tag.  The item then
  has two table notes, and findTableNote returns the second text when \<open>getNotes()\<close>
  lists the new note first.
\<close>

theorem cache_blank_first_text_second_note:
  "(let lib1 = snd (saveTableNote exParse 0 exLibrary exItem (js '' ''));
        lib2 = snd (saveTableNote exParse 0 lib1 exItem (js ''|b|''))
    in length (lib2 (itemID exItem)) = 2
       \<and> findTableNote lib2 exItem = Some (js ''|b|''))"
proof -
  let ?n1 = "newTableNote exParse exItem (js '' '')"
  have l1: "snd (saveTableNote exParse 0 exLibrary exItem (js '' '')) = exLibrary(7 := [Some ?n1])"
    by (rule exSaved)
  have e: "escapeHtml (js '' '') = js '' ''"
    by (simp add: escapeHtml_concat escChar_def js_def)
  have u: "unescapeHtml (js '' '') = js '' ''"
    using unescape_escape [of "js '' ''"] e by (simp add: js_def)
  have t: "trim (js '' '') = []" by (simp add: trim_def char_defs)
  have ne: "js '' '' \<noteq> []" by (simp add: js_def)
  have "tableTextOf (noteHtml ?n1) = None"
    by (simp add: tableTextOf_def exNote_group e u t ne)
  then have miss: "findTableNote (exLibrary(7 := [Some ?n1])) exItem = None"
    by (simp add: findTableNote_def exItem_id newTableNote_tag)
  have lib2: "snd (saveTableNote exParse 0 (exLibrary(7 := [Some ?n1])) exItem (js ''|b|'')) =
      exLibrary(7 := [Some (newTableNote exParse exItem (js ''|b|'')), Some ?n1])"
    unfolding saveTableNote_def Let_def miss by (simp add: exItem_id insertAt_def)
  have ub: "unescapeHtml (escapeHtml (js ''|b|'')) = js ''|b|''"
    by (rule unescape_escape) (simp_all add: js_def)
  have "tableTextOf (noteHtml (newTableNote exParse exItem (js ''|b|''))) = Some (js ''|b|'')"
    by (rule exNote_text [OF ub]) (simp_all add: trim_def char_defs)
  then show ?thesis
    unfolding Let_def l1 lib2 by (simp add: findTableNote_def exItem_id newTableNote_tag)
qed

section \<open>The counters of the worker pool\<close>

lemma filter_update_count:
  "i < length ws \<Longrightarrow>
   length (filter P (ws[i := p])) + (if P (ws ! i) then 1 else 0) =
   length (filter P ws) + (if P p then 1 else 0)"
proof (induction ws arbitrary: i)
  case Nil
  then show ?case by simp
next
  case (Cons w ws)
  show ?case
  proof (cases i)
    case 0
    then show ?thesis by simp
  next
    case (Suc j)
    then have "j < length ws" using Cons.prems by simp
    from Cons.IH [OF this] show ?thesis using Suc by simp
  qed
qed

lemma sum_update_weight:
  "i < length ws \<Longrightarrow>
   sum_list (map weight (ws[i := p])) + weight (ws ! i) = sum_list (map weight ws) + weight p"
proof (induction ws arbitrary: i)
  case Nil
  then show ?case by simp
next
  case (Cons w ws)
  show ?case
  proof (cases i)
    case 0
    then show ?thesis by simp
  next
    case (Suc j)
    then have "j < length ws" using Cons.prems by simp
    from Cons.IH [OF this] show ?thesis using Suc by simp
  qed
qed

lemma set_update_sub: "set (ws[i := p]) \<subseteq> insert p (set ws)"
  by (rule set_update_subset_insert)

text \<open>The head of the loop.\<close>

lemma loopHead_fields:
  "results (loopHead i s) = results s" "completed (loopHead i s) = completed s"
  "total (loopHead i s) = total s" "library (loopHead i s) = library s"
  "progressCalls (loopHead i s) = progressCalls s" "fillCalls (loopHead i s) = fillCalls s"
  "lookups (loopHead i s) = lookups s" "saveCalls (loopHead i s) = saveCalls s"
  "setCalls (loopHead i s) = setCalls s"
  "length (workers (loopHead i s)) = length (workers s)"
  by (simp_all add: loopHead_def split: list.splits)

lemma loopHead_count:
  assumes "i < length (workers s)" and "Done \<in> set (workers s) \<longrightarrow> queue s = []"
  shows "length (queue (loopHead i s)) + length (filter busy (workers (loopHead i s)))
           + (if busy (workers s ! i) then 1 else 0)
         = length (queue s) + length (filter busy (workers s))"
    and "Done \<in> set (workers (loopHead i s)) \<longrightarrow> queue (loopHead i s) = []"
proof -
  show "length (queue (loopHead i s)) + length (filter busy (workers (loopHead i s)))
           + (if busy (workers s ! i) then 1 else 0)
         = length (queue s) + length (filter busy (workers s))"
  proof (cases "queue s")
    case Nil
    then show ?thesis
      using filter_update_count [OF assms(1), of busy Done] by (simp add: loopHead_def busy_def)
  next
    case (Cons t rest)
    then show ?thesis
      using filter_update_count [OF assms(1), of busy "Finding t (getNotes (library s) (parentItem t))"]
      by (simp add: loopHead_def busy_def)
  qed
  show "Done \<in> set (workers (loopHead i s)) \<longrightarrow> queue (loopHead i s) = []"
  proof (cases "queue s")
    case Nil
    then show ?thesis by (simp add: loopHead_def)
  next
    case (Cons t rest)
    have "Done \<notin> set (workers s)" using assms(2) Cons by auto
    then have "Done \<notin> set ((workers s)[i := Finding t (getNotes (library s) (parentItem t))])"
      using set_update_sub [of "workers s" i "Finding t (getNotes (library s) (parentItem t))"]
      by auto
    then show ?thesis using Cons by (simp add: loopHead_def)
  qed
qed

lemma upt_Suc_snoc: "[1..<Suc (Suc n)] = [1..<Suc n] @ [Suc n]"
  by simp

lemma complete_countInv:
  assumes "countInv s" and "i < length (workers s)" and "busy (workers s ! i)"
  shows "countInv (complete i t text s)"
proof -
  let ?s' = "s\<lparr>results := mapSet (itemID (parentItem t)) text (results s),
          completed := completed s + 1,
          progressCalls := progressCalls s @ [(completed s + 1, total s)],
          setCalls := setCalls s @ [(t, text)]\<rparr>"
  have w: "workers ?s' = workers s" and q: "queue ?s' = queue s" by simp_all
  have d: "Done \<in> set (workers ?s') \<longrightarrow> queue ?s' = []" using assms(1) by (simp add: countInv_def)
  have i: "i < length (workers ?s')" using assms(2) by simp
  note lh = loopHead_count [OF i d]
  have c: "complete i t text s = loopHead i ?s'" by (simp add: complete_def)
  have 1: "progressCalls (complete i t text s) =
      map (\<lambda>k. (k, total (complete i t text s))) [1..<Suc (completed (complete i t text s))]"
    using assms(1) unfolding c loopHead_fields countInv_def by simp
  have 2: "completed (complete i t text s) + length (queue (complete i t text s))
      + length (filter busy (workers (complete i t text s))) = total (complete i t text s)"
    using assms(1,3) lh(1) unfolding c loopHead_fields countInv_def by simp
  show ?thesis unfolding countInv_def using 1 2 lh(2) c by simp
qed

lemma setPhase_countInv:
  assumes "countInv s" and "i < length (workers s)" and "busy (workers s ! i)" and "busy p"
    and "workers s' = (workers s)[i := p]" and "queue s' = queue s" and "completed s' = completed s"
    and "total s' = total s" and "progressCalls s' = progressCalls s"
  shows "countInv s'"
proof -
  have "length (filter busy (workers s')) = length (filter busy (workers s))"
    using filter_update_count [OF assms(2), of busy p] assms(3,4,5) by simp
  moreover have "Done \<in> set (workers s') \<longrightarrow> Done \<in> set (workers s)"
    using set_update_sub [of "workers s" i p] assms(4,5) by (auto simp: busy_def)
  ultimately show ?thesis using assms(1,6-9) by (simp add: countInv_def)
qed

lemma countInv_cong:
  assumes "countInv s" and "workers s' = workers s" and "queue s' = queue s"
    and "completed s' = completed s" and "total s' = total s"
    and "progressCalls s' = progressCalls s"
  shows "countInv s'"
  using assms by (simp add: countInv_def)

lemma advance_countInv: "countInv s \<Longrightarrow> countInv (advance c i s)"
proof -
  assume inv: "countInv s"
  show ?thesis
  proof (cases "i < length (workers s)")
    case False
    then show ?thesis using inv by (simp add: advance_def)
  next
    case i: True
    have phase: "countInv s'"
      if "busy p" "workers s' = (workers s)[i := p]" "queue s' = queue s"
        "completed s' = completed s" "total s' = total s" "progressCalls s' = progressCalls s"
        "busy (workers s ! i)" for p s'
      using setPhase_countInv [OF inv i that(7,1,2,3,4,5,6)] .
    have fin: "countInv (complete i t x s)" if "busy (workers s ! i)" for t x
      using complete_countInv [OF inv i that] .
    show ?thesis
    proof (cases "workers s ! i")
      case (Finding t ns)
      then have b: "busy (workers s ! i)" by (simp add: busy_def)
      show ?thesis
      proof (cases "findInNotes ns")
        case None
        have "countInv (s\<lparr>workers := (workers s)[i := Filling t],
            fillCalls := fillCalls s @ [t], lookups := lookups s @ [(t, None)]\<rparr>)"
          by (rule phase [of "Filling t"]) (use b in \<open>simp_all add: busy_def\<close>)
        then show ?thesis using i Finding None by (simp add: advance_def)
      next
        case (Some e)
        let ?s = "s\<lparr>lookups := lookups s @ [(t, Some e)]\<rparr>"
        have "countInv ?s" using inv by (rule countInv_cong) simp_all
        moreover have "i < length (workers ?s)" "busy (workers ?s ! i)" using i b by simp_all
        ultimately have "countInv (complete i t e ?s)" by (rule complete_countInv)
        then show ?thesis using i Finding Some by (simp add: advance_def)
      qed
    next
      case (Filling t)
      then have b: "busy (workers s ! i)" by (simp add: busy_def)
      show ?thesis
      proof (cases "fillTable c t")
        case (Inr table)
        have "countInv (s\<lparr>workers := (workers s)
            [i := Checking t table (getNotes (library s) (parentItem t))],
            saveCalls := saveCalls s @ [(t, table)]\<rparr>)"
          by (rule phase [of "Checking t table (getNotes (library s) (parentItem t))"])
            (use b in \<open>simp_all add: busy_def\<close>)
        then show ?thesis using i Filling Inr by (simp add: advance_def)
      next
        case (Inl msg)
        then show ?thesis using i Filling fin [OF b] by (simp add: advance_def)
      qed
    next
      case (Checking t table ns)
      then have b: "busy (workers s ! i)" by (simp add: busy_def)
      have "countInv (s\<lparr>workers := (workers s)
          [i := Fetching t table (getNotes (library s) (parentItem t))]\<rparr>)"
        by (rule phase [of "Fetching t table (getNotes (library s) (parentItem t))"])
          (use b in \<open>simp_all add: busy_def\<close>)
      moreover have "countInv (s\<lparr>workers := (workers s)[i := Writing t table]\<rparr>)"
        by (rule phase [of "Writing t table"]) (use b in \<open>simp_all add: busy_def\<close>)
      ultimately show ?thesis using i Checking by (simp add: advance_def)
    next
      case (Fetching t table ns)
      then have b: "busy (workers s ! i)" by (simp add: busy_def)
      have "countInv (s\<lparr>workers := (workers s)[i := Writing t table]\<rparr>)"
        by (rule phase [of "Writing t table"]) (use b in \<open>simp_all add: busy_def\<close>)
      then show ?thesis using i Fetching fin [OF b] by (simp add: advance_def)
    next
      case (Writing t table)
      then have b: "busy (workers s ! i)" by (simp add: busy_def)
      have "countInv (s\<lparr>library := storeNote c t table (library s),
          workers := (workers s)[i := Written t table]\<rparr>)"
        by (rule phase [of "Written t table"]) (use b in \<open>simp_all add: busy_def\<close>)
      then show ?thesis using i Writing fin [OF b]
        by (simp add: advance_def split: option.splits)
    next
      case (Written t table)
      then have b: "busy (workers s ! i)" by (simp add: busy_def)
      show ?thesis using i Written fin [OF b] by (simp add: advance_def)
    next
      case Done
      then show ?thesis using inv i by (simp add: advance_def)
    qed
  qed
qed

lemma run_countInv: "countInv s \<Longrightarrow> countInv (run c schedule s)"
  by (induction schedule arbitrary: s) (simp_all add: run_def advance_countInv)

lemma start_countInv: "countInv (startPool items concurrency lib)"
  by (auto simp add: countInv_def startPool_def Let_def busy_def filter_map comp_def)

lemma weight_busy: "busy p \<Longrightarrow> 0 < weight p"
  by (cases p) (simp_all add: busy_def)

lemma loopHead_remaining:
  assumes "i < length (workers s)"
  shows "remaining (loopHead i s) + weight (workers s ! i) \<le> remaining s + 0
         \<or> remaining (loopHead i s) + weight (workers s ! i) + 1 = remaining s"
proof (cases "queue s")
  case Nil
  then show ?thesis
    using sum_update_weight [OF assms, of Done] by (simp add: loopHead_def remaining_def)
next
  case (Cons t rest)
  then show ?thesis
    using sum_update_weight [OF assms, of "Finding t (getNotes (library s) (parentItem t))"]
    by (simp add: loopHead_def remaining_def)
qed

lemma complete_remaining:
  assumes "i < length (workers s)" and "busy (workers s ! i)"
  shows "remaining (complete i t text s) < remaining s"
proof -
  let ?s' = "s\<lparr>results := mapSet (itemID (parentItem t)) text (results s),
          completed := completed s + 1,
          progressCalls := progressCalls s @ [(completed s + 1, total s)],
          setCalls := setCalls s @ [(t, text)]\<rparr>"
  have i: "i < length (workers ?s')" using assms(1) by simp
  have r: "remaining ?s' = remaining s" by (simp add: remaining_def)
  have w: "0 < weight (workers ?s' ! i)" using assms(2) by (simp add: weight_busy)
  show ?thesis using loopHead_remaining [OF i] r w by (auto simp: complete_def)
qed

lemma setPhase_remaining:
  assumes "i < length (workers s)" and "weight p < weight (workers s ! i)"
    and "workers s' = (workers s)[i := p]" and "queue s' = queue s"
  shows "remaining s' < remaining s"
  using sum_update_weight [OF assms(1), of p] assms(2-4) by (simp add: remaining_def)

lemma advance_remaining:
  assumes "i < length (workers s)" and "busy (workers s ! i)"
  shows "remaining (advance c i s) < remaining s"
proof -
  have phase: "remaining s' < remaining s"
    if "weight p < weight (workers s ! i)" "workers s' = (workers s)[i := p]"
      "queue s' = queue s" for p s'
    using setPhase_remaining [OF assms(1) that] .
  have fin: "remaining (complete i t x s) < remaining s" for t x
    using complete_remaining [OF assms] .
  show ?thesis
  proof (cases "workers s ! i")
    case (Finding t ns)
    show ?thesis
    proof (cases "findInNotes ns")
      case None
      have "remaining (s\<lparr>workers := (workers s)[i := Filling t],
          fillCalls := fillCalls s @ [t], lookups := lookups s @ [(t, None)]\<rparr>) < remaining s"
        by (rule phase [of "Filling t"]) (simp_all add: Finding)
      then show ?thesis using assms(1) Finding None by (simp add: advance_def)
    next
      case (Some e)
      let ?s = "s\<lparr>lookups := lookups s @ [(t, Some e)]\<rparr>"
      have "remaining (complete i t e ?s) < remaining ?s"
        by (rule complete_remaining) (use assms in simp_all)
      moreover have "remaining ?s = remaining s" by (simp add: remaining_def)
      ultimately show ?thesis using assms(1) Finding Some by (simp add: advance_def)
    qed
  next
    case (Filling t)
    show ?thesis
    proof (cases "fillTable c t")
      case (Inr table)
      have "remaining (s\<lparr>workers := (workers s)
          [i := Checking t table (getNotes (library s) (parentItem t))],
          saveCalls := saveCalls s @ [(t, table)]\<rparr>) < remaining s"
        by (rule phase [of "Checking t table (getNotes (library s) (parentItem t))"])
          (simp_all add: Filling)
      then show ?thesis using assms(1) Filling Inr by (simp add: advance_def)
    next
      case (Inl msg)
      then show ?thesis using assms(1) Filling fin by (simp add: advance_def)
    qed
  next
    case (Checking t table ns)
    have "remaining (s\<lparr>workers := (workers s)
        [i := Fetching t table (getNotes (library s) (parentItem t))]\<rparr>) < remaining s"
      by (rule phase [of "Fetching t table (getNotes (library s) (parentItem t))"])
        (simp_all add: Checking)
    moreover have "remaining (s\<lparr>workers := (workers s)[i := Writing t table]\<rparr>) < remaining s"
      by (rule phase [of "Writing t table"]) (simp_all add: Checking)
    ultimately show ?thesis using assms(1) Checking by (simp add: advance_def)
  next
    case (Fetching t table ns)
    have "remaining (s\<lparr>workers := (workers s)[i := Writing t table]\<rparr>) < remaining s"
      by (rule phase [of "Writing t table"]) (simp_all add: Fetching)
    then show ?thesis using assms(1) Fetching fin by (simp add: advance_def)
  next
    case (Writing t table)
    have "remaining (s\<lparr>library := storeNote c t table (library s),
        workers := (workers s)[i := Written t table]\<rparr>) < remaining s"
      by (rule phase [of "Written t table"]) (simp_all add: Writing)
    then show ?thesis using assms(1) Writing fin by (simp add: advance_def split: option.splits)
  next
    case (Written t table)
    then show ?thesis using assms(1) fin by (simp add: advance_def)
  next
    case Done
    then show ?thesis using assms(2) by (simp add: busy_def)
  qed
qed

lemma run_Cons: "run c (i # schedule) s = run c schedule (advance c i s)"
  by (simp add: run_def)

text \<open>From every state of the pool, some schedule lets every worker leave its loop.\<close>

lemma completing_schedule: "\<exists>schedule. allDone (run c schedule s)"
proof (induction "remaining s" arbitrary: s rule: less_induct)
  case less
  show ?case
  proof (cases "allDone s")
    case True
    then have "allDone (run c [] s)" by (simp add: run_def)
    then show ?thesis by blast
  next
    case False
    then obtain p where "p \<in> set (workers s)" "p \<noteq> Done"
      by (auto simp: allDone_def list_all_iff)
    then obtain i where i: "i < length (workers s)" "busy (workers s ! i)"
      by (auto simp: in_set_conv_nth busy_def)
    then have "remaining (advance c i s) < remaining s" by (rule advance_remaining)
    then obtain schedule where "allDone (run c schedule (advance c i s))"
      using less by blast
    then have "allDone (run c (i # schedule) s)" by (simp add: run_Cons)
    then show ?thesis by blast
  qed
qed

lemma advance_static:
  "total (advance c i s) = total s" "length (workers (advance c i s)) = length (workers s)"
  by (auto simp: advance_def complete_def loopHead_fields
      split: phase.splits option.splits sum.splits if_splits)

lemma run_static:
  "total (run c schedule s) = total s" "length (workers (run c schedule s)) = length (workers s)"
  by (induction schedule arbitrary: s) (simp_all add: run_def advance_static)

lemma allDone_completed:
  assumes "countInv s" and "allDone s" and "workers s \<noteq> [] \<or> total s = 0"
  shows "completed s = total s"
proof -
  have nb: "filter busy (workers s) = []"
    using assms(2) by (auto simp: allDone_def list_all_iff busy_def filter_empty_conv)
  show ?thesis
  proof (cases "workers s")
    case Nil
    then show ?thesis using assms(1,3) by (simp add: countInv_def)
  next
    case (Cons w ws)
    then have "w = Done" using assms(2) by (simp add: allDone_def)
    then have "Done \<in> set (workers s)" using Cons by simp
    then have "queue s = []" using assms(1) by (simp add: countInv_def)
    then show ?thesis using assms(1) nb by (simp add: countInv_def)
  qed
qed

lemma start_workers:
  "0 < concurrency \<Longrightarrow>
   workers (startPool items concurrency lib) \<noteq> [] \<or> total (startPool items concurrency lib) = 0"
  by (cases items) (auto simp: startPool_def Let_def)


text \<open>
  Claim C8.  With a positive concurrency, fillTablesInParallel returns under some
  schedule, and under every schedule the progress callback has been called once for
  every pair completed so far, with the values 1, 2, ... in this order and the number of
  pairs as total; when every worker has left its loop the values are exactly 1, ..., n.
\<close>

theorem progress_callback_sequence:
  assumes "0 < concurrency"
  shows "(\<exists>schedule. allDone (run c schedule (startPool items concurrency lib)))
    \<and> (\<forall>schedule.
         progressCalls (run c schedule (startPool items concurrency lib)) =
           map (\<lambda>k. (k, length items))
             [1..<Suc (completed (run c schedule (startPool items concurrency lib)))]
         \<and> (allDone (run c schedule (startPool items concurrency lib)) \<longrightarrow>
              progressCalls (run c schedule (startPool items concurrency lib)) =
                map (\<lambda>k. (k, length items)) [1..<Suc (length items)]))"
proof -
  have ex: "\<exists>schedule. allDone (run c schedule (startPool items concurrency lib))"
    by (rule completing_schedule)
  have every: "progressCalls (run c schedule (startPool items concurrency lib)) =
           map (\<lambda>k. (k, length items))
             [1..<Suc (completed (run c schedule (startPool items concurrency lib)))]
         \<and> (allDone (run c schedule (startPool items concurrency lib)) \<longrightarrow>
              progressCalls (run c schedule (startPool items concurrency lib)) =
                map (\<lambda>k. (k, length items)) [1..<Suc (length items)])" for schedule
  proof -
    let ?s = "run c schedule (startPool items concurrency lib)"
    have inv: "countInv ?s" by (simp add: run_countInv start_countInv)
    have tot: "total ?s = length items" by (simp add: run_static startPool_def Let_def)
    have p: "progressCalls ?s = map (\<lambda>k. (k, length items)) [1..<Suc (completed ?s)]"
      using inv tot by (simp add: countInv_def)
    have "progressCalls ?s = map (\<lambda>k. (k, length items)) [1..<Suc (length items)]"
      if fin: "allDone ?s"
    proof -
      have "workers ?s \<noteq> [] \<or> total ?s = 0"
        using start_workers [OF assms, of items lib]
          run_static [of c schedule "startPool items concurrency lib"]
        by (metis length_0_conv)
      then have "completed ?s = length items"
        using allDone_completed [OF inv fin] tot by simp
      then show ?thesis using p by simp
    qed
    then show ?thesis using p by blast
  qed
  show ?thesis using ex every by blast
qed


lemmas pool_defs = run_def advance_def startPool_def complete_def loopHead_def getNotes_def
  storeNote_def exLibrary_def exCollaborators_def exPair_def allDone_def Let_def insertAt_def

lemma exRun_allDone:
  "allDone (run exCollaborators [0, 1, 0, 1, 0, 0, 0, 1, 1, 1, 1, 1]
     (startPool [exPair 1, exPair 2, exPair 3] 2 exLibrary))"
  by (simp add: pool_defs)

theorem progress_callback_sequence_witness:
  "progressCalls (run exCollaborators [0, 1, 0, 1, 0, 0, 0, 1, 1, 1, 1, 1]
     (startPool [exPair 1, exPair 2, exPair 3] 2 exLibrary)) = [(1, 3), (2, 3), (3, 3)]"
proof -
  have "(0::int) < 2" by simp
  from progress_callback_sequence [OF this, of exCollaborators "[exPair 1, exPair 2, exPair 3]" exLibrary]
  have "progressCalls (run exCollaborators [0, 1, 0, 1, 0, 0, 0, 1, 1, 1, 1, 1]
     (startPool [exPair 1, exPair 2, exPair 3] 2 exLibrary)) =
     map (\<lambda>k. (k, length [exPair 1, exPair 2, exPair 3]))
       [1..<Suc (length [exPair 1, exPair 2, exPair 3])]"
    using exRun_allDone by blast
  also have "\<dots> = [(1, 3), (2, 3), (3, 3)]"
    by (simp add: upt_rec)
  finally show ?thesis .
qed

text \<open>
  Claim C10.  For the empty list no worker is spawned, whatever the concurrency;
  fillTablesInParallel returns the empty map at once, and neither the progress callback
  nor fillTableForSinglePDF is called.
\<close>

theorem empty_batch:
  "workers (startPool [] concurrency lib) = []
   \<and> fillTablesInParallel c schedule [] concurrency lib = Some []
   \<and> progressCalls (run c schedule (startPool [] concurrency lib)) = []
   \<and> fillCalls (run c schedule (startPool [] concurrency lib)) = []"
proof -
  have w: "workers (startPool [] concurrency lib) = []" by (simp add: startPool_def)
  have "run c schedule s = s" if "workers s = []" for s
    using that by (induction schedule) (simp_all add: run_def advance_def)
  then have r: "run c schedule (startPool [] concurrency lib) = startPool [] concurrency lib"
    using w by simp
  show ?thesis unfolding fillTablesInParallel_def Let_def r
    by (simp add: startPool_def allDone_def)
qed

section \<open>The turns of a worker\<close>

lemma complete_fields:
  "queue (complete i t x s) = tl (queue s)"
  "workers (complete i t x s) = (workers s)[i := nextPhase s]"
  "results (complete i t x s) = mapSet (itemID (parentItem t)) x (results s)"
  "library (complete i t x s) = library s"
  "fillCalls (complete i t x s) = fillCalls s"
  "lookups (complete i t x s) = lookups s"
  "saveCalls (complete i t x s) = saveCalls s"
  "setCalls (complete i t x s) = setCalls s @ [(t, x)]"
  by (simp_all add: complete_def loopHead_def nextPhase_def split: list.splits)

lemma advance_elim [consumes 1, case_names idle hit miss filled fillFailed found fresh kept lost
    stored saveFailed saved]:
  assumes "i < length (workers s)"
  obtains
    (idle) "workers s ! i = Done" "advance c i s = s"
  | (hit) t ns e where "workers s ! i = Finding t ns" "findInNotes ns = Some e"
      "advance c i s = complete i t e (s\<lparr>lookups := lookups s @ [(t, Some e)]\<rparr>)"
  | (miss) t ns where "workers s ! i = Finding t ns" "findInNotes ns = None"
      "advance c i s = s\<lparr>workers := (workers s)[i := Filling t],
         fillCalls := fillCalls s @ [t], lookups := lookups s @ [(t, None)]\<rparr>"
  | (filled) t table where "workers s ! i = Filling t" "fillTable c t = Inr table"
      "advance c i s = s\<lparr>workers := (workers s)
           [i := Checking t table (getNotes (library s) (parentItem t))],
         saveCalls := saveCalls s @ [(t, table)]\<rparr>"
  | (fillFailed) t m where "workers s ! i = Filling t" "fillTable c t = Inl m"
      "advance c i s = complete i t (placeholder m) s"
  | (found) t table ns where "workers s ! i = Checking t table ns" "findInNotes ns \<noteq> None"
      "advance c i s = s\<lparr>workers := (workers s)
           [i := Fetching t table (getNotes (library s) (parentItem t))]\<rparr>"
  | (fresh) t table ns where "workers s ! i = Checking t table ns" "findInNotes ns = None"
      "advance c i s = s\<lparr>workers := (workers s)[i := Writing t table]\<rparr>"
  | (kept) t table ns where "workers s ! i = Fetching t table ns" "firstTableNote ns \<noteq> None"
      "advance c i s = complete i t table s"
  | (lost) t table ns where "workers s ! i = Fetching t table ns" "firstTableNote ns = None"
      "advance c i s = s\<lparr>workers := (workers s)[i := Writing t table]\<rparr>"
  | (stored) t table where "workers s ! i = Writing t table" "saveFailure c t = None"
      "advance c i s = s\<lparr>library := storeNote c t table (library s),
         workers := (workers s)[i := Written t table]\<rparr>"
  | (saveFailed) t table m where "workers s ! i = Writing t table" "saveFailure c t = Some m"
      "advance c i s = complete i t (placeholder m) s"
  | (saved) t table where "workers s ! i = Written t table"
      "advance c i s = complete i t table s"
proof (cases "workers s ! i")
  case (Finding t ns)
  then show ?thesis using assms hit [of t ns] miss [of t ns]
    by (cases "findInNotes ns") (simp_all add: advance_def)
next
  case (Filling t)
  then show ?thesis using assms filled [of t] fillFailed [of t]
    by (cases "fillTable c t") (simp_all add: advance_def)
next
  case (Checking t table ns)
  then show ?thesis using assms found [of t table ns] fresh [of t table ns]
    by (cases "findInNotes ns") (simp_all add: advance_def)
next
  case (Fetching t table ns)
  then show ?thesis using assms kept [of t table ns] lost [of t table ns]
    by (cases "firstTableNote ns") (simp_all add: advance_def)
next
  case (Writing t table)
  then show ?thesis using assms stored [of t table] saveFailed [of t table]
    by (cases "saveFailure c t") (simp_all add: advance_def)
next
  case (Written t table)
  then show ?thesis using assms saved [of t table] by (simp add: advance_def)
next
  case Done
  then show ?thesis using assms idle by (simp add: advance_def)
qed

section \<open>The logs of the worker pool\<close>

lemma advance_outside: "\<not> i < length (workers s) \<Longrightarrow> advance c i s = s"
  by (simp add: advance_def)












lemma nextPhase_lookups [simp]: "nextPhase (s\<lparr>lookups := l\<rparr>) = nextPhase s"
  by (simp add: nextPhase_def split: list.splits)









section \<open>The pairs a worker holds\<close>

lemma held_Cons: "held (w # ws) = taskList w @ held ws"
  by (simp add: held_def)

lemma held_mem: "w \<in> set ws \<Longrightarrow> set (taskList w) \<subseteq> set (held ws)"
  by (auto simp: held_def)

lemma held_nth: "i < length ws \<Longrightarrow> taskList (ws ! i) = [t] \<Longrightarrow> t \<in> set (held ws)"
  using held_mem [of "ws ! i" ws] by auto

lemma held_replace:
  assumes "i < length ws" and "taskList (ws ! i) = [t]" and "distinct (held ws)"
  shows "set (held (ws[i := p])) = (set (held ws) - {t}) \<union> set (taskList p)"
  using assms
proof (induction ws arbitrary: i)
  case Nil
  then show ?case by simp
next
  case (Cons w ws)
  show ?case
  proof (cases i)
    case 0
    then have w: "taskList w = [t]" using Cons.prems by simp
    then have "t \<notin> set (held ws)" using Cons.prems(3) by (simp add: held_Cons)
    then show ?thesis using 0 w by (auto simp: held_Cons)
  next
    case (Suc j)
    then have j: "j < length ws" "taskList (ws ! j) = [t]" using Cons.prems by simp_all
    have d: "distinct (held ws)" using Cons.prems(3) by (simp add: held_Cons)
    have t: "t \<in> set (held ws)" using j by (rule held_nth)
    then have "t \<notin> set (taskList w)" using Cons.prems(3) by (auto simp: held_Cons)
    then show ?thesis using Cons.IH [OF j d] Suc by (auto simp: held_Cons)
  qed
qed

lemma held_replace_distinct:
  assumes "i < length ws" and "taskList (ws ! i) = [t]" and "distinct (held ws)"
    and "distinct (taskList p)" and "set (taskList p) \<inter> (set (held ws) - {t}) = {}"
  shows "distinct (held (ws[i := p]))"
  using assms
proof (induction ws arbitrary: i)
  case Nil
  then show ?case by simp
next
  case (Cons w ws)
  show ?case
  proof (cases i)
    case 0
    then have w: "taskList w = [t]" using Cons.prems by simp
    then have "t \<notin> set (held ws)" using Cons.prems(3) by (simp add: held_Cons)
    then show ?thesis using 0 w Cons.prems(3,4,5) by (auto simp: held_Cons)
  next
    case (Suc j)
    then have j: "j < length ws" "taskList (ws ! j) = [t]" using Cons.prems by simp_all
    have d: "distinct (held ws)" using Cons.prems(3) by (simp add: held_Cons)
    have t: "t \<in> set (held ws)" using j by (rule held_nth)
    then have tw: "t \<notin> set (taskList w)" using Cons.prems(3) by (auto simp: held_Cons)
    have "set (taskList p) \<inter> (set (held ws) - {t}) = {}" using Cons.prems(5) by (auto simp: held_Cons)
    then have dd: "distinct (held (ws[j := p]))" using Cons.IH [OF j d Cons.prems(4)] by simp
    have "set (held (ws[j := p])) = (set (held ws) - {t}) \<union> set (taskList p)"
      using held_replace [OF j d] .
    moreover have "set (taskList w) \<inter> set (taskList p) = {}"
      using Cons.prems(5) tw by (auto simp: held_Cons)
    moreover have "set (taskList w) \<inter> set (held ws) = {}" "distinct (taskList w)"
      using Cons.prems(3) by (auto simp: held_Cons)
    ultimately show ?thesis using dd Suc by (auto simp: held_Cons)
  qed
qed

lemma held_same:
  "i < length ws \<Longrightarrow> taskList p = taskList (ws ! i) \<Longrightarrow> held (ws[i := p]) = held ws"
proof -
  assume i: "i < length ws" and p: "taskList p = taskList (ws ! i)"
  have "(map taskList ws)[i := taskList (ws ! i)] = map taskList ws"
    using i by (simp add: list_update_same_conv)
  then show ?thesis using p by (simp add: held_def map_update)
qed

lemma update_members: "set (ws[i := p]) \<subseteq> insert p (set (ws[i := Done]))"
proof -
  have "ws[i := p] = (ws[i := Done])[i := p]" by simp
  then show ?thesis using set_update_subset_insert [of "ws[i := Done]" i p] by simp
qed

text \<open>A worker is the only one on its pair.\<close>

lemma only_holder:
  assumes "i < length ws" and "taskList (ws ! i) = [t]" and "distinct (held ws)"
    and "q \<in> set (ws[i := p])" and "q \<noteq> p"
  shows "t \<notin> set (taskList q)"
proof -
  have "q \<in> set (ws[i := Done])" using assms(4,5) update_members [of ws i p] by auto
  then have "set (taskList q) \<subseteq> set (held (ws[i := Done]))" by (rule held_mem)
  moreover have "set (held (ws[i := Done])) = set (held ws) - {t}"
    using held_replace [OF assms(1-3), of Done] by simp
  ultimately show ?thesis by auto
qed

lemma mapSet_lookup: "map_of (mapSet k v m) = (map_of m)(k \<mapsto> v)"
  by (induction m) (auto simp: fun_eq_iff)

lemma ids_inj:
  "distinct (map sourceId items) \<Longrightarrow> x \<in> set items \<Longrightarrow> y \<in> set items \<Longrightarrow>
   sourceId x = sourceId y \<Longrightarrow> x = y"
  by (meson distinct_map inj_onD)

lemma pending_complete:
  assumes "distinct (queue s @ held (workers s))" and "i < length (workers s)"
    and "taskList (workers s ! i) = [t]"
  shows "set (tl (queue s) @ held ((workers s)[i := nextPhase s])) =
           set (queue s @ held (workers s)) - {t}"
    and "distinct (tl (queue s) @ held ((workers s)[i := nextPhase s]))"
proof -
  have dh: "distinct (held (workers s))" and dq: "distinct (queue s)"
    and dj: "set (queue s) \<inter> set (held (workers s)) = {}"
    using assms(1) by auto
  have th: "t \<in> set (held (workers s))" using assms(2,3) by (rule held_nth)
  then have tq: "t \<notin> set (queue s)" using dj by auto
  note rep = held_replace [OF assms(2,3) dh]
  show "set (tl (queue s) @ held ((workers s)[i := nextPhase s])) =
           set (queue s @ held (workers s)) - {t}"
  proof (cases "queue s")
    case Nil
    then show ?thesis using rep [of Done] by (simp add: nextPhase_def)
  next
    case (Cons u rest)
    then have "u \<noteq> t" using tq by auto
    then show ?thesis using rep [of "Finding u (getNotes (library s) (parentItem u))"] Cons tq
      by (auto simp: nextPhase_def)
  qed
  show "distinct (tl (queue s) @ held ((workers s)[i := nextPhase s]))"
  proof (cases "queue s")
    case Nil
    have "distinct (held ((workers s)[i := Done]))"
      by (rule held_replace_distinct [OF assms(2,3) dh]) simp_all
    then show ?thesis using Nil by (simp add: nextPhase_def)
  next
    case (Cons u rest)
    have u: "u \<notin> set (held (workers s))" "u \<notin> set rest" "distinct rest"
      using dq dj Cons by auto
    let ?p = "Finding u (getNotes (library s) (parentItem u))"
    have "distinct (held ((workers s)[i := ?p]))"
      by (rule held_replace_distinct [OF assms(2,3) dh]) (use u in auto)
    moreover have "set rest \<inter> set (held ((workers s)[i := ?p])) = {}"
      using rep [of ?p] u dj Cons by auto
    ultimately show ?thesis using Cons u by (simp add: nextPhase_def)
  qed
qed

lemma outcomeInv_unfold:
  "outcomeInv c items lib s \<longleftrightarrow>
     (distinct (pendingList s)
      \<and> set (pendingList s) \<subseteq> set items
      \<and> (\<forall>p\<in>set (workers s). phaseOK c lib (library s) p)
      \<and> (\<forall>t\<in>set (queue s). library s (sourceId t) = lib (sourceId t))
      \<and> (\<forall>t\<in>set items. t \<in> set (pendingList s)
             \<or> map_of (results s) (sourceId t) = Some (outcome c lib t)))"
  by (simp add: outcomeInv_def list_all_iff)

lemma outcomeInvD:
  assumes "outcomeInv c items lib s"
  shows "distinct (pendingList s)"
    and "set (pendingList s) \<subseteq> set items"
    and "\<And>p. p \<in> set (workers s) \<Longrightarrow> phaseOK c lib (library s) p"
    and "\<And>t. t \<in> set (queue s) \<Longrightarrow> library s (sourceId t) = lib (sourceId t)"
    and "\<And>t. t \<in> set items \<Longrightarrow> t \<notin> set (pendingList s) \<Longrightarrow>
           map_of (results s) (sourceId t) = Some (outcome c lib t)"
  using assms unfolding outcomeInv_unfold by blast+

lemma outcomeInvI:
  assumes "distinct (pendingList s)"
    and "set (pendingList s) \<subseteq> set items"
    and "\<And>p. p \<in> set (workers s) \<Longrightarrow> phaseOK c lib (library s) p"
    and "\<And>t. t \<in> set (queue s) \<Longrightarrow> library s (sourceId t) = lib (sourceId t)"
    and "\<And>t. t \<in> set items \<Longrightarrow> t \<notin> set (pendingList s) \<Longrightarrow>
           map_of (results s) (sourceId t) = Some (outcome c lib t)"
  shows "outcomeInv c items lib s"
  unfolding outcomeInv_unfold using assms by blast

lemma worker_pending:
  "i < length (workers s) \<Longrightarrow> taskList (workers s ! i) = [t] \<Longrightarrow> t \<in> set (pendingList s)"
  using held_nth [of i "workers s" t] by (simp add: pendingList_def)

lemma phaseOK_frame:
  assumes "phaseOK c lib now p"
    and "\<And>u. u \<in> set (taskList p) \<Longrightarrow> now' (sourceId u) = now (sourceId u)"
  shows "phaseOK c lib now' p"
  using assms by (cases p) simp_all

section \<open>The invariant of the results\<close>

lemma find_lib: "findTableNote lib (parentItem t) = findInNotes (lib (sourceId t))"
  by (simp add: findTableNote_def sourceId_def)

lemma member_update: "q \<in> set (ws[i := p]) \<Longrightarrow> q = p \<or> q \<in> set ws"
  using set_update_subset_insert [of ws i p] by auto

text \<open>A worker goes on with its pair; the library stays as it is.\<close>

lemma setPhase_outcomeInv:
  assumes inv: "outcomeInv c items lib s" and i: "i < length (workers s)"
    and tl: "taskList p = taskList (workers s ! i)"
    and ok: "phaseOK c lib (library s) p"
    and w: "workers s' = (workers s)[i := p]" and q: "queue s' = queue s"
    and l: "library s' = library s" and r: "results s' = results s"
  shows "outcomeInv c items lib s'"
proof -
  note d = outcomeInvD [OF inv]
  have pl: "pendingList s' = pendingList s"
    using held_same [OF i tl] by (simp add: pendingList_def w q)
  show ?thesis
  proof (rule outcomeInvI)
    show "distinct (pendingList s')" "set (pendingList s') \<subseteq> set items"
      using d(1,2) pl by simp_all
    show "phaseOK c lib (library s') x" if "x \<in> set (workers s')" for x
      using member_update [of x "workers s" i p] that d(3) ok by (auto simp: w l)
    show "library s' (sourceId t) = lib (sourceId t)" if "t \<in> set (queue s')" for t
      using that d(4) by (simp add: q l)
    show "map_of (results s') (sourceId t) = Some (outcome c lib t)"
      if "t \<in> set items" "t \<notin> set (pendingList s')" for t
      using that d(5) by (simp add: pl r)
  qed
qed

text \<open>The note of a pair is stored: only the notes of its source change, and no other
  pair that is pending has this source.\<close>

lemma stored_outcomeInv:
  assumes ids: "distinct (map sourceId items)"
    and inv: "outcomeInv c items lib s" and i: "i < length (workers s)"
    and at: "workers s ! i = Writing t table" and nf: "saveFailure c t = None"
  shows "outcomeInv c items lib
           (s\<lparr>library := storeNote c t table (library s),
              workers := (workers s)[i := Written t table]\<rparr>)"
    (is "outcomeInv c items lib ?s'")
proof -
  note d = outcomeInvD [OF inv]
  have tl: "taskList (workers s ! i) = [t]" by (simp add: at)
  have dh: "distinct (held (workers s))" using d(1) by (simp add: pendingList_def)
  have tp: "t \<in> set (pendingList s)" using i tl by (rule worker_pending)
  then have ti: "t \<in> set items" using d(2) by blast
  have pl: "pendingList ?s' = pendingList s"
    using held_same [OF i, of "Written t table"] tl by (simp add: pendingList_def)
  have other: "storeNote c t table (library s) (sourceId u) = library s (sourceId u)"
    if "u \<in> set items" "u \<noteq> t" for u
  proof -
    have "sourceId u \<noteq> sourceId t" using ids_inj [OF ids that(1) ti] that(2) by blast
    then show ?thesis by (simp add: storeNote_def sourceId_def)
  qed
  have ok: "phaseOK c lib (library s) (workers s ! i)" using d(3) i by simp
  show ?thesis
  proof (rule outcomeInvI)
    show "distinct (pendingList ?s')" "set (pendingList ?s') \<subseteq> set items"
      using d(1,2) pl by simp_all
    show "phaseOK c lib (library ?s') x" if x: "x \<in> set (workers ?s')" for x
    proof (cases "x = Written t table")
      case True
      then show ?thesis using ok nf by (simp add: at)
    next
      case False
      have xin: "x \<in> set ((workers s)[i := Written t table])" using x by simp
      then have xs: "x \<in> set (workers s)" using member_update [OF xin] False by blast
      have nt: "t \<notin> set (taskList x)"
        using only_holder [OF i tl dh xin False] .
      have "phaseOK c lib (storeNote c t table (library s)) x"
      proof (rule phaseOK_frame [OF d(3) [OF xs]])
        fix u assume u: "u \<in> set (taskList x)"
        then have "u \<in> set (pendingList s)"
          using held_mem [OF xs] by (auto simp: pendingList_def)
        then have "u \<in> set items" using d(2) by blast
        moreover have "u \<noteq> t" using u nt by blast
        ultimately show "storeNote c t table (library s) (sourceId u) = library s (sourceId u)"
          by (rule other)
      qed
      then show ?thesis by simp
    qed
    show "library ?s' (sourceId u) = lib (sourceId u)" if u: "u \<in> set (queue ?s')" for u
    proof -
      have uq: "u \<in> set (queue s)" using u by simp
      have "t \<in> set (held (workers s))" using i tl by (rule held_nth)
      then have "u \<noteq> t" using d(1) uq by (auto simp: pendingList_def)
      moreover have "u \<in> set items" using uq d(2) by (auto simp: pendingList_def)
      ultimately show ?thesis using other [of u] d(4) [OF uq] by simp
    qed
    show "map_of (results ?s') (sourceId u) = Some (outcome c lib u)"
      if "u \<in> set items" "u \<notin> set (pendingList ?s')" for u
      using d(5) [of u] that pl by simp
  qed
qed

text \<open>A worker records the text of its pair and goes to the head of its loop.\<close>

lemma complete_outcomeInv:
  assumes ids: "distinct (map sourceId items)"
    and inv: "outcomeInv c items lib s" and i: "i < length (workers s)"
    and tl: "taskList (workers s ! i) = [t]"
    and rcd: "x = outcome c lib t"
  shows "outcomeInv c items lib (complete i t x s)"
proof -
  note d = outcomeInvD [OF inv]
  have dp: "distinct (queue s @ held (workers s))" using d(1) by (simp add: pendingList_def)
  note pc = pending_complete [OF dp i tl]
  have tp: "t \<in> set (pendingList s)" using i tl by (rule worker_pending)
  then have ti: "t \<in> set items" using d(2) by blast
  have pl: "pendingList (complete i t x s) = tl (queue s) @ held ((workers s)[i := nextPhase s])"
    by (simp add: pendingList_def complete_fields)
  have ps: "set (pendingList (complete i t x s)) = set (pendingList s) - {t}"
    unfolding pl using pc(1) by (simp add: pendingList_def)
  show ?thesis
  proof (rule outcomeInvI)
    show "distinct (pendingList (complete i t x s))" unfolding pl by (rule pc(2))
    show "set (pendingList (complete i t x s)) \<subseteq> set items" using ps d(2) by blast
    show "phaseOK c lib (library (complete i t x s)) p"
      if p: "p \<in> set (workers (complete i t x s))" for p
    proof -
      have "p = nextPhase s \<or> p \<in> set (workers s)"
        using p member_update [of p "workers s" i "nextPhase s"] by (simp add: complete_fields)
      then show ?thesis
      proof
        assume n: "p = nextPhase s"
        show ?thesis
        proof (cases "queue s")
          case Nil
          then show ?thesis using n by (simp add: nextPhase_def)
        next
          case (Cons u rest)
          then have "library s (sourceId u) = lib (sourceId u)" using d(4) [of u] by simp
          then show ?thesis using n Cons
            by (simp add: nextPhase_def complete_fields getNotes_def sourceId_def)
        qed
      next
        assume "p \<in> set (workers s)"
        then show ?thesis using d(3) by (simp add: complete_fields)
      qed
    qed
    show "library (complete i t x s) (sourceId u) = lib (sourceId u)"
      if "u \<in> set (queue (complete i t x s))" for u
    proof -
      have "u \<in> set (queue s)" using that by (cases "queue s") (simp_all add: complete_fields)
      then show ?thesis using d(4) by (simp add: complete_fields)
    qed
    show "map_of (results (complete i t x s)) (sourceId u) = Some (outcome c lib u)"
      if u: "u \<in> set items" "u \<notin> set (pendingList (complete i t x s))" for u
    proof (cases "u = t")
      case True
      then show ?thesis using rcd by (simp add: complete_fields mapSet_lookup sourceId_def)
    next
      case False
      then have "u \<notin> set (pendingList s)" using u(2) ps by blast
      then have "map_of (results s) (sourceId u) = Some (outcome c lib u)"
        using d(5) u(1) by blast
      moreover have "sourceId u \<noteq> sourceId t" using ids_inj [OF ids u(1) ti] False by blast
      ultimately show ?thesis by (simp add: complete_fields mapSet_lookup sourceId_def)
    qed
  qed
qed

lemma outcomeInv_cong:
  assumes "outcomeInv c items lib s" and "queue s' = queue s" and "workers s' = workers s"
    and "library s' = library s" and "results s' = results s"
  shows "outcomeInv c items lib s'"
  using assms by (simp add: outcomeInv_def pendingList_def)

lemma advance_outcomeInv:
  assumes ids: "distinct (map sourceId items)" and inv: "outcomeInv c items lib s"
  shows "outcomeInv c items lib (advance c i s)"
proof (cases "i < length (workers s)")
  case False
  then show ?thesis using inv by (simp add: advance_outside)
next
  case True
  note d = outcomeInvD [OF inv]
  have ok: "phaseOK c lib (library s) (workers s ! i)" using d(3) True by simp
  from True show ?thesis
  proof (cases rule: advance_elim [where c = c])
    case idle
    then show ?thesis using inv by simp
  next
    case (hit t ns e)
    let ?s = "s\<lparr>lookups := lookups s @ [(t, Some e)]\<rparr>"
    have inv': "outcomeInv c items lib ?s" using inv by (rule outcomeInv_cong) simp_all
    have "findTableNote lib (parentItem t) = Some e" using ok hit(1,2) by (simp add: find_lib)
    then have "e = outcome c lib t" by (simp add: outcome_def)
    then have "outcomeInv c items lib (complete i t e ?s)"
      using complete_outcomeInv [OF ids inv', of i t e] True hit(1) by simp
    then show ?thesis by (simp add: hit(3))
  next
    case (miss t ns)
    have "findTableNote lib (parentItem t) = None" using ok miss(1,2) by (simp add: find_lib)
    then have "phaseOK c lib (library s) (Filling t)" using ok miss(1) by simp
    then show ?thesis unfolding miss(3)
      by (rule setPhase_outcomeInv [OF inv True, where p = "Filling t", rotated])
        (simp_all add: miss(1))
  next
    case (filled t table)
    let ?p = "Checking t table (getNotes (library s) (parentItem t))"
    have "phaseOK c lib (library s) ?p"
      using ok filled(1,2) by (simp add: getNotes_def sourceId_def)
    then show ?thesis unfolding filled(3)
      by (rule setPhase_outcomeInv [OF inv True, where p = ?p, rotated])
        (simp_all add: filled(1))
  next
    case (fillFailed t m)
    have "placeholder m = outcome c lib t" using ok fillFailed(1,2) by (simp add: outcome_def)
    then show ?thesis unfolding fillFailed(3)
      using complete_outcomeInv [OF ids inv True, of t] fillFailed(1) by simp
  next
    case (found t table ns)
    then have False using ok by (simp add: find_lib)
    then show ?thesis ..
  next
    case (fresh t table ns)
    have "phaseOK c lib (library s) (Writing t table)" using ok fresh(1) by simp
    then show ?thesis unfolding fresh(3)
      by (rule setPhase_outcomeInv [OF inv True, where p = "Writing t table", rotated])
        (simp_all add: fresh(1))
  next
    case (kept t table ns)
    then have False using ok by simp
    then show ?thesis ..
  next
    case (lost t table ns)
    then have False using ok by simp
    then show ?thesis ..
  next
    case (stored t table)
    show ?thesis unfolding stored(3)
      using ids inv True stored(1,2) by (rule stored_outcomeInv)
  next
    case (saveFailed t table m)
    have "placeholder m = outcome c lib t" using ok saveFailed(1,2) by (simp add: outcome_def)
    then show ?thesis unfolding saveFailed(3)
      using complete_outcomeInv [OF ids inv True, of t] saveFailed(1) by simp
  next
    case (saved t table)
    have "table = outcome c lib t" using ok saved(1) by (simp add: outcome_def)
    then show ?thesis unfolding saved(2)
      using complete_outcomeInv [OF ids inv True, of t] saved(1) by simp
  qed
qed

lemma run_outcomeInv:
  "distinct (map sourceId items) \<Longrightarrow> outcomeInv c items lib s \<Longrightarrow>
   outcomeInv c items lib (run c schedule s)"
  by (induction schedule arbitrary: s) (simp_all add: run_def advance_outcomeInv)

lemma held_Finding: "held (map (\<lambda>task. Finding task (g task)) ts) = ts"
  by (induction ts) (simp_all add: held_def)

lemma start_outcomeInv:
  assumes "distinct (map sourceId items)"
  shows "outcomeInv c items lib (startPool items concurrency lib)"
proof -
  let ?n = "nat (min concurrency (int (length items)))"
  let ?s = "startPool items concurrency lib"
  have di: "distinct items" using assms by (rule distinct_map [THEN iffD1, THEN conjunct1])
  have p: "pendingList ?s = drop ?n items @ take ?n items"
    by (simp add: pendingList_def startPool_def Let_def held_Finding)
  have pset: "set (pendingList ?s) = set items"
    unfolding p using set_append [of "take ?n items" "drop ?n items"] by auto
  show ?thesis
  proof (rule outcomeInvI)
    have "set (take ?n items) \<inter> set (drop ?n items) = {}"
      using di by (simp add: set_take_disj_set_drop_if_distinct)
    then show "distinct (pendingList ?s)" unfolding p using di by auto
    show "set (pendingList ?s) \<subseteq> set items" using pset by simp
    show "phaseOK c lib (library ?s) p" if "p \<in> set (workers ?s)" for p
      using that by (auto simp: startPool_def Let_def getNotes_def sourceId_def)
    show "library ?s (sourceId x) = lib (sourceId x)" if "x \<in> set (queue ?s)" for x
      by (simp add: startPool_def Let_def)
    show "map_of (results ?s) (sourceId x) = Some (outcome c lib x)"
      if "x \<in> set items" "x \<notin> set (pendingList ?s)" for x
      using that pset by simp
  qed
qed

lemma allDone_queue:
  assumes "countInv s" and "allDone s" and "workers s \<noteq> [] \<or> total s = 0"
  shows "queue s = []"
proof (cases "workers s")
  case Nil
  then show ?thesis using assms(1,3) by (simp add: countInv_def)
next
  case (Cons w ws)
  then have "w = Done" using assms(2) by (simp add: allDone_def)
  then have "Done \<in> set (workers s)" using Cons by simp
  then show ?thesis using assms(1) by (simp add: countInv_def)
qed

lemma allDone_tasks:
  assumes "allDone s"
  shows "held (workers s) = []" and "concat (map findingTask (workers s)) = []"
    and "concat (map fillingTask (workers s)) = []"
    and "concat (map savingTask (workers s)) = []"
  using assms by (auto simp: allDone_def list_all_iff held_def)

lemma run_queue:
  assumes "0 < concurrency" and "allDone (run c schedule (startPool items concurrency lib))"
  shows "queue (run c schedule (startPool items concurrency lib)) = []"
proof -
  let ?s = "run c schedule (startPool items concurrency lib)"
  have cinv: "countInv ?s" by (simp add: run_countInv start_countInv)
  have "workers ?s \<noteq> [] \<or> total ?s = 0"
    using start_workers [OF assms(1), of items lib]
      run_static [of c schedule "startPool items concurrency lib"]
    by (metis length_0_conv)
  then show ?thesis using cinv assms(2) allDone_queue by blast
qed

text \<open>With distinct sources, what the results map holds for every pair when every
  worker has left its loop.\<close>

lemma finished_pool:
  assumes "distinct (map sourceId items)" and "0 < concurrency"
    and "allDone (run c schedule (startPool items concurrency lib))" and "t \<in> set items"
  shows "map_of (results (run c schedule (startPool items concurrency lib))) (sourceId t) =
           Some (outcome c lib t)"
proof -
  let ?s = "run c schedule (startPool items concurrency lib)"
  have inv: "outcomeInv c items lib ?s"
    using assms(1) by (simp add: run_outcomeInv start_outcomeInv)
  have "pendingList ?s = []"
    using run_queue [OF assms(2,3)] allDone_tasks(1) [OF assms(3)] by (simp add: pendingList_def)
  then have "t \<notin> set (pendingList ?s)" by simp
  then show ?thesis using outcomeInvD(5) [OF inv assms(4)] by blast
qed

section \<open>saveTableNote in the worker pool\<close>

text \<open>The turns of one worker through saveTableNote, taken together, are
  saveTableNote.\<close>

lemma advance_library_same:
  assumes "\<And>t table. workers s ! i \<noteq> Writing t table"
  shows "library (advance c i s) = library s"
proof (cases "i < length (workers s)")
  case False
  then show ?thesis by (simp add: advance_outside)
next
  case True
  then show ?thesis using assms
    by (cases rule: advance_elim [where c = c]) (auto simp: complete_fields)
qed

lemma complete_library_after:
  "library (advance c i (complete i t x s)) = library s"
proof (cases "i < length (workers s)")
  case False
  then show ?thesis by (simp add: advance_outside complete_fields)
next
  case True
  have "workers (complete i t x s) ! i = nextPhase s" using True by (simp add: complete_fields)
  then have "workers (complete i t x s) ! i \<noteq> Writing u table" for u table
    by (simp add: nextPhase_def split: list.splits)
  then have "library (advance c i (complete i t x s)) = library (complete i t x s)"
    by (rule advance_library_same)
  then show ?thesis by (simp add: complete_fields)
qed

lemma saveTableNote_turns:
  assumes i: "i < length (workers s)"
    and at: "workers s ! i = Checking task table (getNotes (library s) (parentItem task))"
    and nf: "saveFailure c task = None"
  shows "library (advance c i (advance c i (advance c i s))) =
         snd (saveTableNote (marked c) (notePosition c) (library s) (parentItem task) table)"
proof (cases "findInNotes (library s (itemID (parentItem task)))")
  case None
  have 1: "advance c i s = s\<lparr>workers := (workers s)[i := Writing task table]\<rparr>"
    using i at None by (simp add: advance_def getNotes_def)
  have 2: "advance c i (advance c i s) =
      s\<lparr>workers := (workers s)[i := Written task table],
        library := storeNote c task table (library s)\<rparr>"
    unfolding 1 using i nf by (simp add: advance_def)
  have 3: "library (advance c i (advance c i (advance c i s))) =
      storeNote c task table (library s)"
    unfolding 2 using i by (simp add: advance_def complete_fields)
  show ?thesis unfolding 3 using None
    by (simp add: saveTableNote_def findTableNote_def storeNote_def Let_def)
next
  case (Some e)
  let ?f = "Fetching task table (getNotes (library s) (parentItem task))"
  have 1: "advance c i s = s\<lparr>workers := (workers s)[i := ?f]\<rparr>"
    using i at Some by (simp add: advance_def getNotes_def)
  show ?thesis
  proof (cases "firstTableNote (library s (itemID (parentItem task)))")
    case None
    have 2: "advance c i (advance c i s) = s\<lparr>workers := (workers s)[i := Writing task table]\<rparr>"
      unfolding 1 using i None by (simp add: advance_def getNotes_def)
    have 3: "library (advance c i (advance c i (advance c i s))) =
        storeNote c task table (library s)"
      unfolding 2 using i nf by (simp add: advance_def)
    show ?thesis unfolding 3 using Some None
      by (simp add: saveTableNote_def findTableNote_def storeNote_def Let_def)
  next
    case n: (Some n)
    have 2: "advance c i (advance c i s) =
        complete i task table (s\<lparr>workers := (workers s)[i := ?f]\<rparr>)"
      unfolding 1 using i n by (simp add: advance_def getNotes_def)
    have 3: "library (advance c i (advance c i (advance c i s))) = library s"
      unfolding 2 by (simp add: complete_library_after)
    show ?thesis unfolding 3 using Some n
      by (simp add: saveTableNote_def findTableNote_def Let_def)
  qed
qed

text \<open>Two pairs of one source, both without a table text: each worker passes the check
  of line 283 before the other has stored its note, and the item ends with two table
  notes.\<close>

lemma exRace_two_notes:
  "length (library (run exCollaborators [0, 1, 0, 1, 0, 1, 0, 1, 0, 1]
     (startPool [exPair 1, exSecondPdf] 2 exLibrary)) 1) = 2"
  by (simp add: pool_defs exSecondPdf_def)

section \<open>The results of the batch\<close>






text \<open>
  Claim C7, as the code has it.  Let the sources of the pairs be pairwise distinct and
  the concurrency positive.  Some interleaving of the workers lets fillTablesInParallel
  return, and whenever it returns, the results map holds for the source of every pair:
  the cached text, when the item had one at the start; otherwise the text
  \<open>(\<close>U+586B U+8868 U+5931 U+8D25\<open>: message)\<close> with the message of what
  fillTableForSinglePDF threw; otherwise the same text with the message of what the
  creation of the note threw; otherwise the table that fillTableForSinglePDF returned.
  What the other pairs do, and whether they throw, has no part in it.
\<close>

theorem placeholder_isolation:
  assumes "distinct (map sourceId items)" and "0 < concurrency"
  shows "(\<exists>schedule r. fillTablesInParallel c schedule items concurrency lib = Some r)
       \<and> (\<forall>schedule r t.
            fillTablesInParallel c schedule items concurrency lib = Some r \<and> t \<in> set items \<longrightarrow>
              (case findTableNote lib (parentItem t) of
                 Some existing \<Rightarrow> map_of r (sourceId t) = Some existing
               | None \<Rightarrow>
                   (case fillTable c t of
                      Inl message \<Rightarrow>
                        map_of r (sourceId t) =
                          Some (js ''('' @ [22635, 34920, 22833, 36133] @ js '': '' @ message
                                  @ js '')'')
                    | Inr table \<Rightarrow>
                        (case saveFailure c t of
                           Some message \<Rightarrow>
                             map_of r (sourceId t) =
                               Some (js ''('' @ [22635, 34920, 22833, 36133] @ js '': ''
                                       @ message @ js '')'')
                         | None \<Rightarrow> map_of r (sourceId t) = Some table))))"
proof -
  obtain schedule where "allDone (run c schedule (startPool items concurrency lib))"
    using completing_schedule by blast
  then have "fillTablesInParallel c schedule items concurrency lib =
      Some (results (run c schedule (startPool items concurrency lib)))"
    by (simp add: fillTablesInParallel_def)
  then have ex: "\<exists>schedule r. fillTablesInParallel c schedule items concurrency lib = Some r"
    by blast
  have "(case findTableNote lib (parentItem t) of
           Some existing \<Rightarrow> map_of r (sourceId t) = Some existing
         | None \<Rightarrow>
             (case fillTable c t of
                Inl message \<Rightarrow>
                  map_of r (sourceId t) =
                    Some (js ''('' @ [22635, 34920, 22833, 36133] @ js '': '' @ message
                            @ js '')'')
              | Inr table \<Rightarrow>
                  (case saveFailure c t of
                     Some message \<Rightarrow>
                       map_of r (sourceId t) =
                         Some (js ''('' @ [22635, 34920, 22833, 36133] @ js '': ''
                                 @ message @ js '')'')
                   | None \<Rightarrow> map_of r (sourceId t) = Some table)))"
    if r: "fillTablesInParallel c schedule items concurrency lib = Some r" and t: "t \<in> set items"
    for schedule r t
  proof -
    have a: "allDone (run c schedule (startPool items concurrency lib))"
      using r by (simp add: fillTablesInParallel_def Let_def split: if_splits)
    then have "r = results (run c schedule (startPool items concurrency lib))"
      using r by (simp add: fillTablesInParallel_def Let_def)
    then have "map_of r (sourceId t) = Some (outcome c lib t)"
      using finished_pool [OF assms a t] by simp
    then show ?thesis
      by (simp add: outcome_def placeholder_def split: option.splits sum.splits)
  qed
  then show ?thesis using ex by blast
qed

theorem placeholder_isolation_witness:
  "(\<exists>r. fillTablesInParallel exCollaborators [0, 1, 0, 1, 0, 0, 0, 1, 1, 1, 1, 1]
          [exPair 1, exPair 2, exPair 3] 2 exLibrary = Some r
        \<and> map_of r 1 = Some (js ''|t|'')
        \<and> map_of r 2 = Some (js ''('' @ [22635, 34920, 22833, 36133] @ js '': boom)'')
        \<and> map_of r 3 = Some (js ''|t|''))"
proof -
  have d: "distinct (map sourceId [exPair 1, exPair 2, exPair 3])"
    by (simp add: sourceId_def exPair_def)
  have p: "(0::int) < 2" by simp
  have r: "fillTablesInParallel exCollaborators [0, 1, 0, 1, 0, 0, 0, 1, 1, 1, 1, 1]
      [exPair 1, exPair 2, exPair 3] 2 exLibrary =
      Some (results (run exCollaborators [0, 1, 0, 1, 0, 0, 0, 1, 1, 1, 1, 1]
        (startPool [exPair 1, exPair 2, exPair 3] 2 exLibrary)))"
    using exRun_allDone by (simp add: fillTablesInParallel_def)
  have f: "findTableNote exLibrary (parentItem (exPair k)) = None" for k
    by (simp add: findTableNote_def exLibrary_def)
  have c: "fillTable exCollaborators (exPair 1) = Inr (js ''|t|'')"
    "fillTable exCollaborators (exPair 2) = Inl (js ''boom'')"
    "fillTable exCollaborators (exPair 3) = Inr (js ''|t|'')"
    "saveFailure exCollaborators (exPair k) = None" for k
    by (simp_all add: exCollaborators_def exPair_def)
  have i: "sourceId (exPair 1) = 1" "sourceId (exPair 2) = 2" "sourceId (exPair 3) = 3"
    by (simp_all add: sourceId_def exPair_def)
  note w = placeholder_isolation [OF d p, of exCollaborators exLibrary, THEN conjunct2, rule_format,
      OF conjI, OF r]
  have "map_of (results (run exCollaborators [0, 1, 0, 1, 0, 0, 0, 1, 1, 1, 1, 1]
        (startPool [exPair 1, exPair 2, exPair 3] 2 exLibrary))) 1 = Some (js ''|t|'')"
    using w [of "exPair 1"] f c i by simp
  moreover have "map_of (results (run exCollaborators [0, 1, 0, 1, 0, 0, 0, 1, 1, 1, 1, 1]
        (startPool [exPair 1, exPair 2, exPair 3] 2 exLibrary))) 2 =
        Some (js ''('' @ [22635, 34920, 22833, 36133] @ js '': boom)'')"
    using w [of "exPair 2"] f c i by (simp add: js_def)
  moreover have "map_of (results (run exCollaborators [0, 1, 0, 1, 0, 0, 0, 1, 1, 1, 1, 1]
        (startPool [exPair 1, exPair 2, exPair 3] 2 exLibrary))) 3 = Some (js ''|t|'')"
    using w [of "exPair 3"] f c i by simp
  ultimately show ?thesis using r by blast
qed

text \<open>
  The claim as stated is about every list of pairs.  The results map has one entry for
  a source (lines 508, 517, 524), so of two pairs of one source the one recorded last
  stays: here the pair with the second PDF of item 1 succeeds and is recorded first, the
  pair with the first PDF throws and is recorded last, and the map that is returned holds
  the placeholder alone.
\<close>

theorem placeholder_same_source_counterexample:
  "fillTablesInParallel exClash [1, 1, 1, 1, 1, 0, 0] [exPair 1, exSecondPdf] 2 exLibrary
     = Some [(1, js ''('' @ [22635, 34920, 22833, 36133] @ js '': boom)'')]
   \<and> findTableNote exLibrary (parentItem exSecondPdf) = None
   \<and> fillTable exClash exSecondPdf = Inr (js ''|t|'')
   \<and> saveFailure exClash exSecondPdf = None"
  by (simp add: fillTablesInParallel_def pool_defs exClash_def exSecondPdf_def placeholder_def
      findTableNote_def js_def)

end
